theory Spec2Isabelle
  imports Main
begin

section \<open>Data model of \<^verbatim>\<open>create-machine.ts\<close>\<close>

text \<open>
  A \<^verbatim>\<open>Record<string, unknown>\<close> is a finite map from property names to values of an
  arbitrary type \<open>'v\<close>. The runtime never updates such an object in place: it only
  rebinds its variables \<^verbatim>\<open>context\<close> and \<^verbatim>\<open>props\<close> to new objects, so on this level an
  object is its key-value mapping. Object identity and freezing are modelled separately
  in the section on snapshots.
\<close>

type_synonym 'v obj = "string \<rightharpoonup> 'v"

text \<open>An event: \<^verbatim>\<open>{ type: string }\<close> and a payload that the runtime never inspects.\<close>

record 'v event =
  ev_type :: string
  ev_payload :: "'v obj"

text \<open>
  \<^verbatim>\<open>MachineTransition\<close>. The optional fields are options; \<^verbatim>\<open>from\<close> is a state or the
  wildcard \<^verbatim>\<open>'*'\<close>. Priorities are taken to be integers.
\<close>

record transition =
  t_from :: string
  t_event :: string
  t_to :: string
  t_action :: "string option"
  t_guard :: "string option"
  t_priority :: "int option"

text \<open>\<^verbatim>\<open>MachineParams\<close>: what a guard or an action handler receives.\<close>

record 'v params =
  p_context :: "'v obj"
  p_event :: "'v event"
  p_props :: "'v obj"

text \<open>A thrown value: \<^verbatim>\<open>new Error(message)\<close>.\<close>

datatype error = Error string

text \<open>
  Listeners are functions, held in a \<^verbatim>\<open>Set\<close> by identity. A listener is named by a
  number; what it does when called is looked up in the environment.
\<close>

type_synonym lid = nat

text \<open>
  The operations of \<^verbatim>\<open>MachineReturn\<close> that change the machine. \<^verbatim>\<open>Unsubscribe l\<close> is a
  call of the function that \<^verbatim>\<open>subscribe\<close> returned for listener \<open>l\<close>. The argument of
  \<^verbatim>\<open>Subscribe\<close> is \<^verbatim>\<open>options.immediate\<close> (\<open>None\<close> when it is left out).
\<close>

datatype 'v call =
    Start
  | Stop
  | Send "'v event"
  | Subscribe lid "bool option"
  | Unsubscribe lid
  | SyncProps "'v obj"

text \<open>
  Action handlers and listeners are callbacks of the caller, the hooks through which
  side effects enter: they may use the machine while they run (the repository's test of
  re-entrancy does). The body of a
  callback is a tree: it returns, throws, calls an operation of the machine and goes on
  with what the call did (\<open>None\<close>: it returned, \<open>Some e\<close>: it threw \<open>e\<close>, which the body
  may catch or rethrow), or reads \<^verbatim>\<open>getState()\<close>, \<^verbatim>\<open>getContext()\<close> and \<^verbatim>\<open>getProps()\<close>.
\<close>

datatype ('v, 'r) prog =
    Return 'r
  | Throw error
  | Invoke "'v call" "error option \<Rightarrow> ('v, 'r) prog"
  | Observe "string \<times> 'v obj \<times> 'v obj \<Rightarrow> ('v, 'r) prog"

text \<open>
  \<^verbatim>\<open>MachineConfig\<close>. An action handler returns \<^verbatim>\<open>Partial<context> | void\<close>
  (\<open>None\<close> is \<^verbatim>\<open>void\<close>). A guard is a predicate: it computes a boolean from its
  parameters, and it neither throws nor calls the machine.
\<close>

record 'v config =
  cfg_id :: "string option"
  cfg_context :: "'v obj option"
  cfg_props :: "'v obj option"
  cfg_initial :: string
  cfg_transitions :: "transition list"
  cfg_actions :: "(string \<rightharpoonup> ('v params \<Rightarrow> ('v, 'v obj option) prog)) option"
  cfg_guards :: "(string \<rightharpoonup> ('v params \<Rightarrow> bool)) option"

record 'v env =
  config :: "'v config"
  listener :: "lid \<Rightarrow> string \<Rightarrow> 'v obj \<Rightarrow> 'v obj \<Rightarrow> ('v, unit) prog"

text \<open>
  What can be observed from outside while the machine runs, in the order it happens:
  the calls of guard handlers, action handlers and listeners with their arguments, and
  the errors written with \<^verbatim>\<open>console.error\<close>.
\<close>

datatype 'v obs =
    GuardCalled string "'v params"
  | ActionCalled string "'v params"
  | ListenerCalled lid string "'v obj" "'v obj"
  | ConsoleError error

text \<open>
  The variables closed over by \<^verbatim>\<open>createMachine\<close>. \<open>m_listeners\<close> is the \<^verbatim>\<open>Set\<close> as
  ECMAScript specifies it: the entries in insertion order, where a deleted entry is
  replaced by an empty one (\<open>None\<close>), so that an iteration in progress keeps its
  position. \<open>m_trace\<close> records the observations; no operation reads it.
\<close>

record 'v machine =
  m_state :: string
  m_context :: "'v obj"
  m_props :: "'v obj"
  m_listeners :: "lid option list"
  m_running :: bool
  m_processing :: bool
  m_trace :: "'v obs list"

text \<open>
  The outcome of an operation: \<open>None\<close> when it does not return (it ran out of fuel),
  otherwise whether it threw, and the machine it leaves.
\<close>

type_synonym 'v outcome = "(error option \<times> 'v machine) option"

type_synonym 'v exec = "'v call \<Rightarrow> 'v machine \<Rightarrow> 'v outcome"

section \<open>The helpers imported from \<^verbatim>\<open>@pistachiojs/core\<close>\<close>

text \<open>
  Modelled from the spec: \<^verbatim>\<open>filter(seq, pred)\<close> is not part of the sources. It returns
  the elements satisfying \<open>pred\<close> in original order. The predicate is called on the
  elements from left to right; when a call throws, so does \<open>filter\<close>. The predicate may
  add to the machine's trace, which is passed along.
\<close>

fun filter_m :: "'a list \<Rightarrow> ('a \<Rightarrow> 's \<Rightarrow> (error + bool) \<times> 's) \<Rightarrow> 's \<Rightarrow> (error + 'a list) \<times> 's" where
  "filter_m [] pred s = (Inr [], s)"
| "filter_m (x # xs) pred s =
     (case pred x s of
        (Inl e, s') \<Rightarrow> (Inl e, s')
      | (Inr b, s') \<Rightarrow>
          (case filter_m xs pred s' of
             (Inl e, s'') \<Rightarrow> (Inl e, s'')
           | (Inr ys, s'') \<Rightarrow> (Inr (if b then x # ys else ys), s'')))"

text \<open>
  Modelled from the spec: the step of the sort below, which is not part of the sources.
  An element is put before the first one that it does not have to follow.
\<close>

fun insert_by :: "('a \<Rightarrow> 'a \<Rightarrow> int) \<Rightarrow> 'a \<Rightarrow> 'a list \<Rightarrow> 'a list" where
  "insert_by cmp x [] = [x]"
| "insert_by cmp x (y # ys) = (if cmp x y \<le> 0 then x # y # ys else y # insert_by cmp x ys)"

text \<open>
  Modelled from the spec: \<^verbatim>\<open>sort(seq, cmp)\<close> is not part of the sources. It returns a
  new sequence ordered by \<open>cmp\<close> preserving the relative order of equal elements (a
  stable sort); here, insertion sort.
\<close>

fun sort_by :: "('a \<Rightarrow> 'a \<Rightarrow> int) \<Rightarrow> 'a list \<Rightarrow> 'a list" where
  "sort_by cmp [] = []"
| "sort_by cmp (x # xs) = insert_by cmp x (sort_by cmp xs)"

text \<open>
  Modelled from the spec: \<^verbatim>\<open>merge(a, b)\<close> is not part of the sources. It returns a
  shallow union of two key-value mappings with \<open>b\<close>'s keys taking precedence.
\<close>

definition merge :: "'v obj \<Rightarrow> 'v obj \<Rightarrow> 'v obj" where
  "merge a b = a ++ b"

section \<open>The machine\<close>

text \<open>
  \<^verbatim>\<open>getContext\<close> and \<^verbatim>\<open>getProps\<close> return \<^verbatim>\<open>freeze({ ...context })\<close>: a frozen copy with
  the key-value mapping of the variable.
\<close>

definition getContext :: "'v machine \<Rightarrow> 'v obj" where
  "getContext m = m_context m"

definition getProps :: "'v machine \<Rightarrow> 'v obj" where
  "getProps m = m_props m"

definition getState :: "'v machine \<Rightarrow> string" where
  "getState m = m_state m"

definition matches :: "string list \<Rightarrow> 'v machine \<Rightarrow> bool" where
  "matches states m = (m_state m \<in> set states)"

definition createMachine :: "'v config \<Rightarrow> 'v machine" where
  "createMachine cfg =
     \<lparr> m_state = cfg_initial cfg,
       m_context = (case cfg_context cfg of None \<Rightarrow> Map.empty | Some c \<Rightarrow> c),
       m_props = (case cfg_props cfg of None \<Rightarrow> Map.empty | Some p \<Rightarrow> p),
       m_listeners = [],
       m_running = False,
       m_processing = False,
       m_trace = [] \<rparr>"

definition start :: "'v machine \<Rightarrow> 'v machine" where
  "start m = (if m_running m then m else m\<lparr>m_running := True\<rparr>)"

definition stop :: "'v machine \<Rightarrow> 'v machine" where
  "stop m = (if \<not> m_running m then m else m\<lparr>m_running := False\<rparr>)"

text \<open>
  \<^verbatim>\<open>if (transition.guard)\<close> and \<^verbatim>\<open>if (transition.action)\<close> test an optional string for
  truthiness: a missing name and the empty string are both falsy.
\<close>

fun truthy :: "string option \<Rightarrow> string option" where
  "truthy None = None"
| "truthy (Some s) = (if s = [] then None else Some s)"

text \<open>\<^verbatim>\<open>config.guards?.[name]\<close> and \<^verbatim>\<open>config.actions?.[name]\<close>.\<close>

definition lookup :: "(string \<rightharpoonup> 'h) option \<Rightarrow> string \<Rightarrow> 'h option" where
  "lookup handlers name = (case handlers of None \<Rightarrow> None | Some hs \<Rightarrow> hs name)"

definition guard_not_found :: "string \<Rightarrow> error" where
  "guard_not_found g = Error (''Guard '' @ [CHR 0x22] @ g @ [CHR 0x22] @ '' not found.'')"

definition action_not_found :: "string \<Rightarrow> error" where
  "action_not_found a = Error (''Action '' @ [CHR 0x22] @ a @ [CHR 0x22] @ '' not found.'')"

definition observe :: "'v obs \<Rightarrow> 'v machine \<Rightarrow> 'v machine" where
  "observe x m = m\<lparr>m_trace := m_trace m @ [x]\<rparr>"

text \<open>Running the body of a callback; \<open>ex\<close> performs the calls it makes.\<close>

primrec run :: "'v exec \<Rightarrow> ('v, 'r) prog \<Rightarrow> 'v machine \<Rightarrow> ((error + 'r) \<times> 'v machine) option" where
  "run ex (Return r) m = Some (Inr r, m)"
| "run ex (Throw e) m = Some (Inl e, m)"
| "run ex (Invoke c k) m =
     (case ex c m of None \<Rightarrow> None | Some (thrown, m') \<Rightarrow> run ex (k thrown) m')"
| "run ex (Observe k) m = run ex (k (getState m, getContext m, getProps m)) m"

text \<open>\<^verbatim>\<open>listener(state, getContext(), getProps())\<close>.\<close>

definition call_listener :: "'v exec \<Rightarrow> 'v env \<Rightarrow> lid \<Rightarrow> 'v machine \<Rightarrow> ((error + unit) \<times> 'v machine) option" where
  "call_listener ex env l m =
     run ex (listener env l (m_state m) (getContext m) (getProps m))
       (observe (ListenerCalled l (m_state m) (getContext m) (getProps m)) m)"

text \<open>
  \<^verbatim>\<open>notify\<close>: the loop \<^verbatim>\<open>for (const listener of listeners)\<close> at position \<open>i\<close> of the
  set's entries. A listener may add entries while the loop runs, so the loop need not
  end: it is given fuel, one unit for each entry it visits.
\<close>

primrec notify_loop :: "nat \<Rightarrow> 'v exec \<Rightarrow> 'v env \<Rightarrow> nat \<Rightarrow> 'v machine \<Rightarrow> 'v machine option" where
  "notify_loop 0 ex env i m = (if length (m_listeners m) \<le> i then Some m else None)"
| "notify_loop (Suc fuel) ex env i m =
     (if length (m_listeners m) \<le> i then Some m
      else case m_listeners m ! i of
        None \<Rightarrow> notify_loop fuel ex env (Suc i) m
      | Some l \<Rightarrow>
          (case call_listener ex env l m of
             None \<Rightarrow> None
           | Some (Inl e, m') \<Rightarrow> notify_loop fuel ex env (Suc i) (observe (ConsoleError e) m')
           | Some (Inr u, m') \<Rightarrow> notify_loop fuel ex env (Suc i) m'))"

definition notify :: "nat \<Rightarrow> 'v exec \<Rightarrow> 'v env \<Rightarrow> 'v machine \<Rightarrow> 'v machine option" where
  "notify fuel ex env m = notify_loop fuel ex env 0 m"

text \<open>The function that \<^verbatim>\<open>send\<close> passes to \<^verbatim>\<open>filter\<close>.\<close>

definition is_match :: "'v env \<Rightarrow> 'v event \<Rightarrow> transition \<Rightarrow> 'v machine \<Rightarrow> (error + bool) \<times> 'v machine" where
  "is_match env ev transition m =
     (if \<not> (t_from transition = ''*'' \<or> t_from transition = m_state m)
         \<or> \<not> (t_event transition = ev_type ev) then (Inr False, m)
      else case truthy (t_guard transition) of
        Some g \<Rightarrow>
          (case lookup (cfg_guards (config env)) g of
             None \<Rightarrow> (Inl (guard_not_found g), m)
           | Some handler \<Rightarrow>
               (let p = \<lparr> p_context = getContext m, p_event = ev, p_props = getProps m \<rparr>
                in (Inr (handler p), observe (GuardCalled g p) m)))
      | None \<Rightarrow> (Inr True, m))"

text \<open>\<^verbatim>\<open>(a, b) => (b.priority ?? 0) - (a.priority ?? 0)\<close>\<close>

definition prio :: "transition \<Rightarrow> int" where
  "prio t = (case t_priority t of None \<Rightarrow> 0 | Some p \<Rightarrow> p)"

definition by_priority :: "transition \<Rightarrow> transition \<Rightarrow> int" where
  "by_priority a b = prio b - prio a"

text \<open>
  Lines 107 to 121 of \<^verbatim>\<open>send\<close>: the state is assigned, then the action runs, then the
  listeners are notified.
\<close>

definition apply_transition :: "nat \<Rightarrow> 'v exec \<Rightarrow> 'v env \<Rightarrow> 'v event \<Rightarrow> transition \<Rightarrow> 'v machine \<Rightarrow> 'v outcome" where
  "apply_transition fuel ex env ev transition m =
     (let m1 = m\<lparr>m_state := t_to transition\<rparr> in
      case truthy (t_action transition) of
        None \<Rightarrow> map_option (Pair None) (notify fuel ex env m1)
      | Some a \<Rightarrow>
          (case lookup (cfg_actions (config env)) a of
             None \<Rightarrow> Some (Some (action_not_found a), m1)
           | Some handler \<Rightarrow>
               (let p = \<lparr> p_context = getContext m1, p_event = ev, p_props = getProps m1 \<rparr> in
                case run ex (handler p) (observe (ActionCalled a p) m1) of
                  None \<Rightarrow> None
                | Some (Inl e, m2) \<Rightarrow> Some (Some e, m2)
                | Some (Inr None, m2) \<Rightarrow> map_option (Pair None) (notify fuel ex env m2)
                | Some (Inr (Some result), m2) \<Rightarrow>
                    map_option (Pair None)
                      (notify fuel ex env (m2\<lparr>m_context := m_context m2 ++ result\<rparr>)))))"

text \<open>The \<^verbatim>\<open>try\<close> block of \<^verbatim>\<open>send\<close>.\<close>

definition send_try :: "nat \<Rightarrow> 'v exec \<Rightarrow> 'v env \<Rightarrow> 'v event \<Rightarrow> 'v machine \<Rightarrow> 'v outcome" where
  "send_try fuel ex env ev m =
     (case filter_m (cfg_transitions (config env)) (is_match env ev) m of
        (Inl e, m') \<Rightarrow> Some (Some e, m')
      | (Inr found, m') \<Rightarrow>
          if length found = 0 then Some (None, m')
          else (case sort_by by_priority found of
                  [] \<Rightarrow> Some (Some (Error ''TypeError''), m')
                | transition # rest \<Rightarrow> apply_transition fuel ex env ev transition m'))"

text \<open>\<^verbatim>\<open>send\<close>: the two early returns, then the \<^verbatim>\<open>try\<close> block with its \<^verbatim>\<open>finally\<close>.\<close>

definition send :: "nat \<Rightarrow> 'v exec \<Rightarrow> 'v env \<Rightarrow> 'v event \<Rightarrow> 'v machine \<Rightarrow> 'v outcome" where
  "send fuel ex env ev m =
     (if \<not> m_running m then Some (None, m)
      else if m_processing m then Some (None, m)
      else map_option (\<lambda>(thrown, m'). (thrown, m'\<lparr>m_processing := False\<rparr>))
             (send_try fuel ex env ev (m\<lparr>m_processing := True\<rparr>)))"

text \<open>\<^verbatim>\<open>listeners.add\<close> and \<^verbatim>\<open>listeners.delete\<close>.\<close>

definition set_add :: "lid \<Rightarrow> lid option list \<Rightarrow> lid option list" where
  "set_add l ls = (if Some l \<in> set ls then ls else ls @ [Some l])"

definition set_delete :: "lid \<Rightarrow> lid option list \<Rightarrow> lid option list" where
  "set_delete l ls = map (\<lambda>entry. if entry = Some l then None else entry) ls"

text \<open>
  \<^verbatim>\<open>subscribe\<close>; \<^verbatim>\<open>immediate\<close> defaults to \<^verbatim>\<open>true\<close>. The function it returns is
  \<open>unsubscribe\<close> of the same listener.
\<close>

definition subscribe :: "'v exec \<Rightarrow> 'v env \<Rightarrow> lid \<Rightarrow> bool option \<Rightarrow> 'v machine \<Rightarrow> 'v outcome" where
  "subscribe ex env l options m =
     (let immediate = (case options of None \<Rightarrow> True | Some b \<Rightarrow> b);
          m1 = m\<lparr>m_listeners := set_add l (m_listeners m)\<rparr>
      in if immediate then
           (case call_listener ex env l m1 of
              None \<Rightarrow> None
            | Some (Inl e, m2) \<Rightarrow> Some (Some e, m2)
            | Some (Inr u, m2) \<Rightarrow> Some (None, m2))
         else Some (None, m1))"

definition unsubscribe :: "lid \<Rightarrow> 'v machine \<Rightarrow> 'v machine" where
  "unsubscribe l m = m\<lparr>m_listeners := set_delete l (m_listeners m)\<rparr>"

definition syncProps :: "nat \<Rightarrow> 'v exec \<Rightarrow> 'v env \<Rightarrow> 'v obj \<Rightarrow> 'v machine \<Rightarrow> 'v outcome" where
  "syncProps fuel ex env newProps m =
     map_option (Pair None) (notify fuel ex env (m\<lparr>m_props := merge (m_props m) newProps\<rparr>))"

text \<open>
  A call of the machine with \<open>n\<close> units of fuel: the calls made by the callbacks that
  it runs get one unit less, and so do its notification loops.
\<close>

primrec api :: "nat \<Rightarrow> 'v env \<Rightarrow> 'v call \<Rightarrow> 'v machine \<Rightarrow> 'v outcome" where
  "api 0 env c m = None"
| "api (Suc n) env c m =
     (case c of
        Start \<Rightarrow> Some (None, start m)
      | Stop \<Rightarrow> Some (None, stop m)
      | Send ev \<Rightarrow> send n (api n env) env ev m
      | Subscribe l options \<Rightarrow> subscribe (api n env) env l options m
      | Unsubscribe l \<Rightarrow> Some (None, unsubscribe l m)
      | SyncProps newProps \<Rightarrow> syncProps n (api n env) env newProps m)"

section \<open>Notions for stating the properties\<close>

text \<open>
  None of the following is used by the operations above. They name what the properties
  speak about: which transitions are candidates for an event, which of them survive the
  guards, which one wins, and what the callbacks are seen to be called with.
\<close>

subsection \<open>Candidates, survivors and the winner\<close>

text \<open>The transition matches the current state (or is a wildcard) and the event.\<close>

definition candidate :: "'v event \<Rightarrow> 'v machine \<Rightarrow> transition \<Rightarrow> bool" where
  "candidate ev m t = ((t_from t = ''*'' \<or> t_from t = m_state m) \<and> t_event t = ev_type ev)"

text \<open>What \<^verbatim>\<open>send\<close> passes to a guard or an action handler.\<close>

definition handler_params :: "'v event \<Rightarrow> 'v machine \<Rightarrow> 'v params" where
  "handler_params ev m = \<lparr> p_context = getContext m, p_event = ev, p_props = getProps m \<rparr>"

text \<open>A candidate that names a guard for which there is no handler.\<close>

definition guard_missing :: "'v env \<Rightarrow> 'v event \<Rightarrow> 'v machine \<Rightarrow> transition \<Rightarrow> bool" where
  "guard_missing env ev m t =
     (candidate ev m t \<and>
      (case truthy (t_guard t) of
         None \<Rightarrow> False
       | Some g \<Rightarrow> (case lookup (cfg_guards (config env)) g of None \<Rightarrow> True | Some h \<Rightarrow> False)))"

definition no_guard_missing :: "'v env \<Rightarrow> 'v event \<Rightarrow> 'v machine \<Rightarrow> bool" where
  "no_guard_missing env ev m = (\<forall>t\<in>set (cfg_transitions (config env)). \<not> guard_missing env ev m t)"

text \<open>A candidate that has no guard, or whose guard handler returns true.\<close>

definition survives :: "'v env \<Rightarrow> 'v event \<Rightarrow> 'v machine \<Rightarrow> transition \<Rightarrow> bool" where
  "survives env ev m t =
     (candidate ev m t \<and>
      (case truthy (t_guard t) of
         None \<Rightarrow> True
       | Some g \<Rightarrow> (case lookup (cfg_guards (config env)) g of
                      None \<Rightarrow> False
                    | Some h \<Rightarrow> h (handler_params ev m))))"

definition candidates :: "'v env \<Rightarrow> 'v event \<Rightarrow> 'v machine \<Rightarrow> transition list" where
  "candidates env ev m = filter (survives env ev m) (cfg_transitions (config env))"

text \<open>The first element of the sorted survivors, which \<^verbatim>\<open>send\<close> applies.\<close>

definition winner :: "'v env \<Rightarrow> 'v event \<Rightarrow> 'v machine \<Rightarrow> transition option" where
  "winner env ev m =
     (case sort_by by_priority (candidates env ev m) of [] \<Rightarrow> None | w # rest \<Rightarrow> Some w)"


subsection \<open>What a dispatch is seen to call\<close>

text \<open>The guard calls that the filtering makes for a transition, and for a table.\<close>

definition guard_obs :: "'v env \<Rightarrow> 'v event \<Rightarrow> 'v machine \<Rightarrow> transition \<Rightarrow> 'v obs list" where
  "guard_obs env ev m t =
     (if candidate ev m t then
        (case truthy (t_guard t) of
           None \<Rightarrow> []
         | Some g \<Rightarrow> (case lookup (cfg_guards (config env)) g of
                        None \<Rightarrow> []
                      | Some h \<Rightarrow> [GuardCalled g (handler_params ev m)]))
      else [])"

definition guard_calls :: "'v env \<Rightarrow> 'v event \<Rightarrow> 'v machine \<Rightarrow> transition list \<Rightarrow> 'v obs list" where
  "guard_calls env ev m ts = concat (map (guard_obs env ev m) ts)"

text \<open>The call of the action handler of \<open>w\<close>, when \<open>w\<close> names an action that has one.\<close>

definition action_call :: "'v env \<Rightarrow> 'v event \<Rightarrow> 'v machine \<Rightarrow> transition \<Rightarrow> 'v obs list" where
  "action_call env ev m w =
     (case truthy (t_action w) of
        None \<Rightarrow> []
      | Some a \<Rightarrow> (case lookup (cfg_actions (config env)) a of
                     None \<Rightarrow> []
                   | Some h \<Rightarrow> [ActionCalled a (handler_params ev m)]))"

text \<open>The machine in which the winner is applied: the latch is set, the guards have been called.\<close>

definition dispatching :: "'v env \<Rightarrow> 'v event \<Rightarrow> 'v machine \<Rightarrow> 'v machine" where
  "dispatching env ev m =
     m\<lparr>m_processing := True,
       m_trace := m_trace m @ guard_calls env ev m (cfg_transitions (config env))\<rparr>"

text \<open>The machine in which the action handler of the winner runs.\<close>

definition at_action :: "'v env \<Rightarrow> 'v event \<Rightarrow> 'v machine \<Rightarrow> transition \<Rightarrow> 'v machine" where
  "at_action env ev m w =
     m\<lparr>m_processing := True, m_state := t_to w,
       m_trace := m_trace m @ guard_calls env ev m (cfg_transitions (config env)) @ action_call env ev m w\<rparr>"

subsection \<open>What holds while the latch is set\<close>

text \<open>The calls of guards and of action handlers are what only a dispatch makes.\<close>

fun is_dispatch_obs :: "'v obs \<Rightarrow> bool" where
  "is_dispatch_obs (GuardCalled g p) = True"
| "is_dispatch_obs (ActionCalled a p) = True"
| "is_dispatch_obs (ListenerCalled l s c p) = False"
| "is_dispatch_obs (ConsoleError e) = False"

text \<open>
  From \<open>m\<close> to \<open>m'\<close> the state, the context and the latch have not changed, and no guard or
  action handler has been called.
\<close>

definition held :: "'v machine \<Rightarrow> 'v machine \<Rightarrow> bool" where
  "held m m' =
     (m_state m' = m_state m \<and> m_context m' = m_context m \<and> m_processing m' = m_processing m \<and>
      (\<exists>ext. m_trace m' = m_trace m @ ext \<and> (\<forall>x\<in>set ext. \<not> is_dispatch_obs x)))"

text \<open>Every call made while the latch is set leaves the machine so.\<close>

definition latched :: "'v exec \<Rightarrow> bool" where
  "latched ex = (\<forall>c m thrown m'. m_processing m \<longrightarrow> ex c m = Some (thrown, m') \<longrightarrow> held m m')"


text \<open>The trace only gets longer.\<close>

definition grows :: "'v machine \<Rightarrow> 'v machine \<Rightarrow> bool" where
  "grows m m' = (\<exists>ext. m_trace m' = m_trace m @ ext)"

definition expanding :: "'v exec \<Rightarrow> bool" where
  "expanding ex = (\<forall>c m thrown m'. ex c m = Some (thrown, m') \<longrightarrow> grows m m')"

subsection \<open>Callbacks that make no call of the machine\<close>

text \<open>
  What a callback body does when it is run on a machine that shows \<open>v\<close> to
  \<^verbatim>\<open>getState()\<close>, \<^verbatim>\<open>getContext()\<close> and \<^verbatim>\<open>getProps()\<close>: \<open>None\<close> when it calls the machine,
  otherwise what it returns or throws.
\<close>

primrec result_of :: "('v, 'r) prog \<Rightarrow> string \<times> 'v obj \<times> 'v obj \<Rightarrow> (error + 'r) option" where
  "result_of (Return r) v = Some (Inr r)"
| "result_of (Throw e) v = Some (Inl e)"
| "result_of (Invoke c k) v = None"
| "result_of (Observe k) v = result_of (k v) v"

definition view :: "'v machine \<Rightarrow> string \<times> 'v obj \<times> 'v obj" where
  "view m = (getState m, getContext m, getProps m)"

text \<open>What listener \<open>l\<close> does when it is notified on machine \<open>m\<close>.\<close>

definition listener_result :: "'v env \<Rightarrow> 'v machine \<Rightarrow> lid \<Rightarrow> (error + unit) option" where
  "listener_result env m l =
     result_of (listener env l (m_state m) (getContext m) (getProps m)) (view m)"

text \<open>Every registered listener returns or throws without calling the machine.\<close>

definition quiet_listeners :: "'v env \<Rightarrow> 'v machine \<Rightarrow> bool" where
  "quiet_listeners env m = (\<forall>l. Some l \<in> set (m_listeners m) \<longrightarrow> listener_result env m l \<noteq> None)"

text \<open>
  What the notification of one entry of the set is seen to do: nothing for a deleted
  entry; otherwise the call of the listener and, when it throws, the error on
  \<^verbatim>\<open>console.error\<close>.
\<close>

definition listener_obs :: "'v env \<Rightarrow> 'v machine \<Rightarrow> lid option \<Rightarrow> 'v obs list" where
  "listener_obs env m entry =
     (case entry of
        None \<Rightarrow> []
      | Some l \<Rightarrow>
          ListenerCalled l (m_state m) (getContext m) (getProps m) #
          (case listener_result env m l of Some (Inl e) \<Rightarrow> [ConsoleError e] | _ \<Rightarrow> []))"

definition notifications :: "'v env \<Rightarrow> 'v machine \<Rightarrow> lid option list \<Rightarrow> 'v obs list" where
  "notifications env m entries = concat (map (listener_obs env m) entries)"

text \<open>
  The winner has no action and \<open>res\<close> is nothing, or its action handler returns \<open>res\<close>
  without calling the machine.
\<close>

definition action_returns :: "'v env \<Rightarrow> 'v event \<Rightarrow> 'v machine \<Rightarrow> transition \<Rightarrow> 'v obj option \<Rightarrow> bool" where
  "action_returns env ev m w res =
     (case truthy (t_action w) of
        None \<Rightarrow> res = None
      | Some a \<Rightarrow>
          (case lookup (cfg_actions (config env)) a of
             None \<Rightarrow> False
           | Some h \<Rightarrow>
               result_of (h (handler_params ev m)) (t_to w, m_context m, m_props m) = Some (Inr res)))"

text \<open>
  The state and the context after a dispatch that applied \<open>w\<close>, where the action handler
  (if there is one) returned \<open>res\<close>.
\<close>

definition after :: "'v machine \<Rightarrow> transition \<Rightarrow> 'v obj option \<Rightarrow> 'v machine" where
  "after m w res =
     m\<lparr>m_state := t_to w,
       m_context := (case res of None \<Rightarrow> m_context m | Some r \<Rightarrow> m_context m ++ r)\<rparr>"

text \<open>
  The machine after such a dispatch when the listeners only returned or threw: the trace
  has the calls of the guards, then of the action handler, then of the listeners.
\<close>

definition completed :: "'v env \<Rightarrow> 'v event \<Rightarrow> 'v machine \<Rightarrow> transition \<Rightarrow> 'v obj option \<Rightarrow> 'v machine" where
  "completed env ev m w res =
     (after m w res)\<lparr>m_trace := m_trace m @ guard_calls env ev m (cfg_transitions (config env)) @
        action_call env ev m w @ notifications env (after m w res) (m_listeners m)\<rparr>"

subsection \<open>The listeners of a set, and the parts of a trace\<close>

text \<open>The listeners that are in the set, in the order of insertion.\<close>

definition registered :: "lid option list \<Rightarrow> lid list" where
  "registered ls = concat (map (\<lambda>entry. case entry of None \<Rightarrow> [] | Some l \<Rightarrow> [l]) ls)"




section \<open>Snapshots as objects\<close>

text \<open>
  Whether a snapshot aliases the object that the machine owns is a question about
  object identity, which the maps above do not have. Here every object lives in a heap
  at an address, with its properties and a flag saying whether it is frozen; the
  variables \<^verbatim>\<open>context\<close> and \<^verbatim>\<open>props\<close> hold addresses. The values of the properties are
  taken as immutable values: a property that holds another object is not followed.
\<close>

type_synonym addr = nat

record 'v object =
  o_fields :: "'v obj"
  o_frozen :: bool

type_synonym 'v heap = "'v object list"

record 'v store =
  s_heap :: "'v heap"
  s_context :: addr
  s_props :: addr

text \<open>An object literal \<^verbatim>\<open>{ ... }\<close> makes a new object, which is not frozen.\<close>

definition alloc :: "'v obj \<Rightarrow> 'v heap \<Rightarrow> addr \<times> 'v heap" where
  "alloc fs h = (length h, h @ [\<lparr> o_fields = fs, o_frozen = False \<rparr>])"

text \<open>
  Modelled from the spec: \<^verbatim>\<open>freeze(value)\<close> is not part of the sources. It returns a value
  that rejects further mutation, throwing on write attempts: the object is marked, and
  \<open>assign\<close> below throws on a marked object.
\<close>

definition freeze :: "addr \<Rightarrow> 'v heap \<Rightarrow> 'v heap" where
  "freeze a h = (if a < length h then h[a := (h ! a)\<lparr>o_frozen := True\<rparr>] else h)"

text \<open>
  A write \<^verbatim>\<open>object[k] = v\<close> by any code that holds the object (in strict mode, as in the
  test suite): it throws a \<^verbatim>\<open>TypeError\<close> on a frozen object.
\<close>

definition assign :: "addr \<Rightarrow> string \<Rightarrow> 'v \<Rightarrow> 'v heap \<Rightarrow> error + 'v heap" where
  "assign a k v h =
     (if a < length h \<and> \<not> o_frozen (h ! a)
      then Inr (h[a := (h ! a)\<lparr>o_fields := (o_fields (h ! a))(k \<mapsto> v)\<rparr>])
      else Inl (Error ''TypeError''))"

text \<open>\<^verbatim>\<open>freeze({ ...source })\<close>\<close>

definition snapshot :: "addr \<Rightarrow> 'v heap \<Rightarrow> addr \<times> 'v heap" where
  "snapshot src h = (case alloc (o_fields (h ! src)) h of (a, h') \<Rightarrow> (a, freeze a h'))"

definition getContext_heap :: "'v store \<Rightarrow> addr \<times> 'v store" where
  "getContext_heap s = (case snapshot (s_context s) (s_heap s) of (a, h) \<Rightarrow> (a, s\<lparr>s_heap := h\<rparr>))"

definition getProps_heap :: "'v store \<Rightarrow> addr \<times> 'v store" where
  "getProps_heap s = (case snapshot (s_props s) (s_heap s) of (a, h) \<Rightarrow> (a, s\<lparr>s_heap := h\<rparr>))"

text \<open>
  The two assignments of the machine to its variables:
  \<^verbatim>\<open>context = { ...context, ...result }\<close> in \<^verbatim>\<open>send\<close> and
  \<^verbatim>\<open>props = merge(props, newProps)\<close> in \<^verbatim>\<open>syncProps\<close>, where \<^verbatim>\<open>merge\<close> returns a new mapping.
\<close>

definition set_context :: "'v obj \<Rightarrow> 'v store \<Rightarrow> 'v store" where
  "set_context result s =
     (case alloc (o_fields (s_heap s ! s_context s) ++ result) (s_heap s) of
        (a, h) \<Rightarrow> s\<lparr>s_heap := h, s_context := a\<rparr>)"

definition set_props :: "'v obj \<Rightarrow> 'v store \<Rightarrow> 'v store" where
  "set_props newProps s =
     (case alloc (merge (o_fields (s_heap s ! s_props s)) newProps) (s_heap s) of
        (a, h) \<Rightarrow> s\<lparr>s_heap := h, s_props := a\<rparr>)"

text \<open>
  What can happen to the heap after a snapshot was taken: more snapshots, the two
  assignments (a transition with an action, a \<^verbatim>\<open>syncProps\<close>), and writes by anybody to any
  object.
\<close>

datatype 'v heap_op =
    GetContext
  | GetProps
  | SetContext "'v obj"
  | SetProps "'v obj"
  | Assign addr string 'v

fun heap_step :: "'v store \<Rightarrow> 'v heap_op \<Rightarrow> 'v store" where
  "heap_step s GetContext = snd (getContext_heap s)"
| "heap_step s GetProps = snd (getProps_heap s)"
| "heap_step s (SetContext result) = set_context result s"
| "heap_step s (SetProps newProps) = set_props newProps s"
| "heap_step s (Assign a k v) =
     (case assign a k v (s_heap s) of Inl e \<Rightarrow> s | Inr h \<Rightarrow> s\<lparr>s_heap := h\<rparr>)"

definition heap_steps :: "'v store \<Rightarrow> 'v heap_op list \<Rightarrow> 'v store" where
  "heap_steps s ops = foldl heap_step s ops"

text \<open>The variables hold addresses of objects of the heap.\<close>

definition well_formed :: "'v store \<Rightarrow> bool" where
  "well_formed s = (s_context s < length (s_heap s) \<and> s_props s < length (s_heap s))"

section \<open>Machines of the test suite\<close>

text \<open>
  The configurations of \<^verbatim>\<open>create-machine.test.ts\<close> on which the theorems below are
  instantiated. The values of the context and of the props are integers there.
\<close>

text \<open>A transition with no action, no guard and no priority.\<close>

definition edge :: "string \<Rightarrow> string \<Rightarrow> string \<Rightarrow> transition" where
  "edge source name target =
     \<lparr> t_from = source, t_event = name, t_to = target,
       t_action = None, t_guard = None, t_priority = None \<rparr>"

definition toggle :: "int event" where
  "toggle = \<lparr> ev_type = ''TOGGLE'', ev_payload = Map.empty \<rparr>"


text \<open>A listener that does nothing.\<close>

definition silent :: "lid \<Rightarrow> string \<Rightarrow> int obj \<Rightarrow> int obj \<Rightarrow> (int, unit) prog" where
  "silent l s c p = Return ()"























text \<open>The action \<^verbatim>\<open>({ context }) => ({ count: context.count + 10 })\<close>, and one that returns nothing.\<close>

definition add_ten :: "int params \<Rightarrow> (int, int obj option) prog" where
  "add_ten p =
     (case p_context p ''count'' of
        None \<Rightarrow> Return None
      | Some c \<Rightarrow> Return (Some [''count'' \<mapsto> c + 10]))"

definition merging_edge :: transition where
  "merging_edge = (edge ''green'' ''TOGGLE'' ''red'')\<lparr>t_action := Some ''increment''\<rparr>"

definition merging_config :: "int config" where
  "merging_config =
     \<lparr> cfg_id = None, cfg_context = Some [''count'' \<mapsto> 5], cfg_props = None,
       cfg_initial = ''green'',
       cfg_transitions = [merging_edge, (edge ''red'' ''TOGGLE'' ''green'')\<lparr>t_action := Some ''idle''\<rparr>],
       cfg_actions = Some [''increment'' \<mapsto> add_ten, ''idle'' \<mapsto> (\<lambda>p. Return None)],
       cfg_guards = None \<rparr>"

definition merging_env :: "int env" where
  "merging_env = \<lparr> config = merging_config, listener = silent \<rparr>"

text \<open>A machine with a context and props, for the subscription tests.\<close>

definition watched_config :: "int config" where
  "watched_config =
     \<lparr> cfg_id = None, cfg_context = Some [''count'' \<mapsto> 5], cfg_props = Some [''maxCount'' \<mapsto> 10],
       cfg_initial = ''green'', cfg_transitions = [edge ''green'' ''TOGGLE'' ''red''],
       cfg_actions = None, cfg_guards = None \<rparr>"

definition watched_env :: "int env" where
  "watched_env = \<lparr> config = watched_config, listener = silent \<rparr>"

text \<open>Listener 0 throws, every other listener returns.\<close>

definition faulty :: "lid \<Rightarrow> string \<Rightarrow> int obj \<Rightarrow> int obj \<Rightarrow> (int, unit) prog" where
  "faulty l s c p = (if l = 0 then Throw (Error ''Listener error'') else Return ())"

definition faulty_config :: "int config" where
  "faulty_config =
     \<lparr> cfg_id = None, cfg_context = None, cfg_props = None,
       cfg_initial = ''green'', cfg_transitions = [edge ''green'' ''TOGGLE'' ''red''],
       cfg_actions = None, cfg_guards = None \<rparr>"

definition faulty_env :: "int env" where
  "faulty_env = \<lparr> config = faulty_config, listener = faulty \<rparr>"


text \<open>A heap with the objects \<^verbatim>\<open>{ count: 0 }\<close> of the context and \<^verbatim>\<open>{ maxCount: 5 }\<close> of the props.\<close>

definition light_store :: "int store" where
  "light_store =
     \<lparr> s_heap = [\<lparr> o_fields = [''count'' \<mapsto> 0], o_frozen = False \<rparr>,
                 \<lparr> o_fields = [''maxCount'' \<mapsto> 5], o_frozen = False \<rparr>],
       s_context = 0, s_props = 1 \<rparr>"

section \<open>Lemmas on the helpers and on the dispatch\<close>


lemma is_match_traced:
  "is_match env ev t (m\<lparr>m_trace := tr\<rparr>) =
     ((if guard_missing env ev m t then Inl (guard_not_found (the (t_guard t)))
       else Inr (survives env ev m t)),
      m\<lparr>m_trace := tr @ guard_obs env ev m t\<rparr>)"
  by (cases "t_guard t")
     (auto simp: is_match_def guard_missing_def survives_def guard_obs_def candidate_def
        handler_params_def getContext_def getProps_def observe_def Let_def
        split: option.splits)

lemma filter_m_is_match:
  "\<forall>t\<in>set ts. \<not> guard_missing env ev m t \<Longrightarrow>
   filter_m ts (is_match env ev) (m\<lparr>m_trace := tr\<rparr>) =
     (Inr (filter (survives env ev m) ts),
      m\<lparr>m_trace := tr @ concat (map (guard_obs env ev m) ts)\<rparr>)"
  by (induction ts arbitrary: tr) (simp_all add: is_match_traced)


lemma held_refl: "held m m"
  by (simp add: held_def)

lemma held_trans: "held a b \<Longrightarrow> held b c \<Longrightarrow> held a c"
  unfolding held_def by (elim conjE exE) (rule conjI, simp, rule conjI, simp, rule conjI, simp, rule_tac x="ext @ exta" in exI, auto)

lemma held_observe: "\<not> is_dispatch_obs x \<Longrightarrow> held m (observe x m)"
  by (simp add: held_def observe_def)


lemma run_held:
  assumes "latched ex"
  shows "m_processing m \<Longrightarrow> run ex p m = Some (r, m') \<Longrightarrow> held m m'"
proof (induction p arbitrary: m)
  case (Return x)
  then show ?case by (simp add: held_refl)
next
  case (Throw x)
  then show ?case by (simp add: held_refl)
next
  case (Invoke c k)
  from Invoke.prems(2) obtain thrown m1 where ex: "ex c m = Some (thrown, m1)"
    and rest: "run ex (k thrown) m1 = Some (r, m')"
    by (auto split: option.splits)
  from assms Invoke.prems(1) ex have h1: "held m m1" unfolding latched_def by blast
  then have "m_processing m1" using Invoke.prems(1) by (simp add: held_def)
  with Invoke.IH[of "k thrown" m1] rest have "held m1 m'" by blast
  with h1 show ?case by (rule held_trans)
next
  case (Observe k)
  from Observe.prems show ?case by (intro Observe.IH[OF rangeI]) simp_all
qed

lemma call_listener_held:
  assumes "latched ex" "m_processing m" "call_listener ex env l m = Some (r, m')"
  shows "held m m'"
proof -
  let ?m1 = "observe (ListenerCalled l (m_state m) (getContext m) (getProps m)) m"
  have h1: "held m ?m1" by (rule held_observe) simp
  then have "m_processing ?m1" using assms(2) by (simp add: held_def)
  moreover from assms(3) have "run ex (listener env l (m_state m) (getContext m) (getProps m)) ?m1 = Some (r, m')"
    by (simp add: call_listener_def)
  ultimately have "held ?m1 m'" by (rule run_held[OF assms(1)])
  with h1 show ?thesis by (rule held_trans)
qed

lemma notify_loop_held:
  assumes "latched ex"
  shows "m_processing m \<Longrightarrow> notify_loop fuel ex env i m = Some m' \<Longrightarrow> held m m'"
proof (induction fuel arbitrary: i m)
  case 0
  then show ?case by (simp add: held_refl split: if_splits)
next
  case (Suc fuel)
  show ?case
  proof (cases "length (m_listeners m) \<le> i")
    case True
    with Suc.prems show ?thesis by (simp add: held_refl)
  next
    case False
    show ?thesis
    proof (cases "m_listeners m ! i")
      case None
      with False Suc.prems Suc.IH show ?thesis by simp
    next
      case (Some l)
      with False Suc.prems(2) obtain r m1 where cl: "call_listener ex env l m = Some (r, m1)"
        by (auto split: option.splits)
      from assms Suc.prems(1) cl have h1: "held m m1" by (rule call_listener_held)
      show ?thesis
      proof (cases r)
        case (Inl e)
        have h2: "held m1 (observe (ConsoleError e) m1)" by (rule held_observe) simp
        from h1 h2 have h3: "held m (observe (ConsoleError e) m1)" by (rule held_trans)
        then have "m_processing (observe (ConsoleError e) m1)" using Suc.prems(1) by (simp add: held_def)
        moreover from Inl Some False cl Suc.prems(2)
        have "notify_loop fuel ex env (Suc i) (observe (ConsoleError e) m1) = Some m'" by simp
        ultimately have "held (observe (ConsoleError e) m1) m'" by (rule Suc.IH)
        with h3 show ?thesis by (rule held_trans)
      next
        case (Inr u)
        from h1 have "m_processing m1" using Suc.prems(1) by (simp add: held_def)
        moreover from Inr Some False cl Suc.prems(2)
        have "notify_loop fuel ex env (Suc i) m1 = Some m'" by simp
        ultimately have "held m1 m'" by (rule Suc.IH)
        with h1 show ?thesis by (rule held_trans)
      qed
    qed
  qed
qed

lemma notify_held:
  "latched ex \<Longrightarrow> m_processing m \<Longrightarrow> notify fuel ex env m = Some m' \<Longrightarrow> held m m'"
  unfolding notify_def by (rule notify_loop_held)

lemma api_latched: "latched (api n env)"
proof (induction n)
  case 0
  then show ?case by (simp add: latched_def)
next
  case (Suc n)
  show ?case unfolding latched_def
  proof (intro allI impI)
    fix c :: "'a call" and m thrown m'
    assume p: "m_processing m" and a: "api (Suc n) env c m = Some (thrown, m')"
    show "held m m'"
    proof (cases c)
      case Start
      with a show ?thesis by (auto simp: start_def held_def split: if_splits)
    next
      case Stop
      with a show ?thesis by (auto simp: stop_def held_def split: if_splits)
    next
      case (Send ev)
      with a p show ?thesis by (auto simp: send_def held_refl split: if_splits)
    next
      case (Subscribe l options)
      let ?m1 = "m\<lparr>m_listeners := set_add l (m_listeners m)\<rparr>"
      have h1: "held m ?m1" by (simp add: held_def)
      show ?thesis
      proof (cases "case options of None \<Rightarrow> True | Some b \<Rightarrow> b")
        case True
        with a Subscribe obtain r where "call_listener (api n env) env l ?m1 = Some (r, m')"
          by (auto simp: subscribe_def Let_def split: option.splits sum.splits)
        with Suc have "held ?m1 m'" using p by (intro call_listener_held[where m="?m1"]) auto
        with h1 show ?thesis by (rule held_trans)
      next
        case False
        with a Subscribe have "m' = ?m1" by (auto simp: subscribe_def Let_def)
        with h1 show ?thesis by simp
      qed
    next
      case (Unsubscribe l)
      with a show ?thesis by (auto simp: unsubscribe_def held_def)
    next
      case (SyncProps newProps)
      let ?m1 = "m\<lparr>m_props := merge (m_props m) newProps\<rparr>"
      have h1: "held m ?m1" by (simp add: held_def)
      from a SyncProps have "notify n (api n env) env ?m1 = Some m'"
        by (auto simp: syncProps_def)
      with Suc have "held ?m1 m'" using p by (intro notify_held[where m="?m1"]) auto
      with h1 show ?thesis by (rule held_trans)
    qed
  qed
qed

lemma insert_by_not_Nil: "insert_by cmp x ys \<noteq> []"
  by (cases ys) simp_all

lemma sort_by_Nil_iff: "sort_by cmp xs = [] \<longleftrightarrow> xs = []"
  by (cases xs) (simp_all add: insert_by_not_Nil)


lemma handler_params_latch [simp]: "handler_params ev (m\<lparr>m_processing := b\<rparr>) = handler_params ev m"
  by (simp add: handler_params_def getContext_def getProps_def)

lemma survives_latch [simp]: "survives env ev (m\<lparr>m_processing := b\<rparr>) = survives env ev m"
  by (rule ext) (simp add: survives_def candidate_def cong: option.case_cong)

lemma guard_missing_latch [simp]: "guard_missing env ev (m\<lparr>m_processing := b\<rparr>) = guard_missing env ev m"
  by (rule ext) (simp add: guard_missing_def candidate_def)

lemma guard_obs_latch [simp]: "guard_obs env ev (m\<lparr>m_processing := b\<rparr>) = guard_obs env ev m"
  by (rule ext) (simp add: guard_obs_def candidate_def cong: option.case_cong)


lemma send_try_dispatch:
  assumes "no_guard_missing env ev m"
  shows "send_try fuel ex env ev (m\<lparr>m_processing := True\<rparr>) =
     (case winner env ev m of
        None \<Rightarrow> Some (None, dispatching env ev m)
      | Some w \<Rightarrow> apply_transition fuel ex env ev w (dispatching env ev m))"
proof -
  let ?m = "m\<lparr>m_processing := True\<rparr>"
  have nm: "\<forall>t\<in>set (cfg_transitions (config env)). \<not> guard_missing env ev ?m t"
    using assms by (simp add: no_guard_missing_def)
  have "filter_m (cfg_transitions (config env)) (is_match env ev) (?m\<lparr>m_trace := m_trace ?m\<rparr>) =
     (Inr (candidates env ev m), dispatching env ev m)"
    unfolding filter_m_is_match[OF nm]
    by (simp add: candidates_def dispatching_def guard_calls_def)
  then have "filter_m (cfg_transitions (config env)) (is_match env ev) ?m =
     (Inr (candidates env ev m), dispatching env ev m)" by simp
  then show ?thesis
    by (simp add: send_try_def winner_def sort_by_Nil_iff split: list.splits)
qed


lemma send_dispatch:
  assumes "m_running m" "\<not> m_processing m" "no_guard_missing env ev m"
  shows "send fuel ex env ev m =
     (case winner env ev m of
        None \<Rightarrow> Some (None, m\<lparr>m_trace := m_trace m @ guard_calls env ev m (cfg_transitions (config env))\<rparr>)
      | Some w \<Rightarrow>
          map_option (\<lambda>(thrown, m'). (thrown, m'\<lparr>m_processing := False\<rparr>))
            (apply_transition fuel ex env ev w (dispatching env ev m)))"
  using assms by (simp add: send_def send_try_dispatch dispatching_def split: option.splits)

lemma run_result_of:
  "result_of p (view m) = Some r \<Longrightarrow> run ex p m = Some (r, m)"
  by (induction p) (auto simp: view_def)

lemma view_trace [simp]: "view (m\<lparr>m_trace := tr\<rparr>) = view m"
  by (simp add: view_def getState_def getContext_def getProps_def)

lemma listener_result_trace [simp]: "listener_result env (m\<lparr>m_trace := tr\<rparr>) l = listener_result env m l"
  by (simp add: listener_result_def getContext_def getProps_def)

lemma call_listener_quiet:
  assumes "listener_result env m l = Some r"
  shows "call_listener ex env l (m\<lparr>m_trace := tr\<rparr>) =
     Some (r, m\<lparr>m_trace := tr @ [ListenerCalled l (m_state m) (getContext m) (getProps m)]\<rparr>)"
proof -
  let ?m1 = "m\<lparr>m_trace := tr @ [ListenerCalled l (m_state m) (getContext m) (getProps m)]\<rparr>"
  have "result_of (listener env l (m_state m) (getContext m) (getProps m)) (view ?m1) = Some r"
    using assms by (simp add: listener_result_def)
  then have "run ex (listener env l (m_state m) (getContext m) (getProps m)) ?m1 = Some (r, ?m1)"
    by (rule run_result_of)
  then show ?thesis
    by (simp add: call_listener_def observe_def getContext_def getProps_def)
qed

lemma notify_loop_quiet:
  assumes "\<forall>l. Some l \<in> set (m_listeners m) \<longrightarrow> listener_result env m l \<noteq> None"
  shows "length (m_listeners m) \<le> i + fuel \<Longrightarrow>
     notify_loop fuel ex env i (m\<lparr>m_trace := tr\<rparr>) =
       Some (m\<lparr>m_trace := tr @ notifications env m (drop i (m_listeners m))\<rparr>)"
proof (induction fuel arbitrary: i tr)
  case 0
  then show ?case by (simp add: notifications_def)
next
  case (Suc fuel)
  show ?case
  proof (cases "length (m_listeners m) \<le> i")
    case True
    then show ?thesis by (simp add: notifications_def)
  next
    case False
    then have i: "i < length (m_listeners m)" by simp
    then have d: "drop i (m_listeners m) = m_listeners m ! i # drop (Suc i) (m_listeners m)"
      by (simp add: Cons_nth_drop_Suc)
    from Suc.prems have le: "length (m_listeners m) \<le> Suc i + fuel" by simp
    show ?thesis
    proof (cases "m_listeners m ! i")
      case None
      with False d Suc.IH[OF le] show ?thesis
        by (simp add: notifications_def listener_obs_def)
    next
      case (Some l)
      with i have "Some l \<in> set (m_listeners m)" by (metis nth_mem)
      with assms obtain r where r: "listener_result env m l = Some r" by blast
      show ?thesis
      proof (cases r)
        case (Inl e)
        with r Some False d Suc.IH[OF le] show ?thesis
          by (simp add: call_listener_quiet notifications_def listener_obs_def observe_def)
      next
        case (Inr u)
        with r Some False d Suc.IH[OF le] show ?thesis
          by (simp add: call_listener_quiet notifications_def listener_obs_def)
      qed
    qed
  qed
qed

lemma notify_quiet:
  assumes "quiet_listeners env m" "length (m_listeners m) \<le> fuel"
  shows "notify fuel ex env m = Some (m\<lparr>m_trace := m_trace m @ notifications env m (m_listeners m)\<rparr>)"
proof -
  from assms(1) have q: "\<forall>l. Some l \<in> set (m_listeners m) \<longrightarrow> listener_result env m l \<noteq> None"
    by (simp add: quiet_listeners_def)
  from assms(2) have "length (m_listeners m) \<le> 0 + fuel" by simp
  from notify_loop_quiet[OF q this, of ex "m_trace m"] show ?thesis
    by (simp add: notify_def)
qed


lemma apply_transition_no_action:
  "truthy (t_action w) = None \<Longrightarrow>
   apply_transition fuel ex env ev w m = map_option (Pair None) (notify fuel ex env (m\<lparr>m_state := t_to w\<rparr>))"
  by (simp add: apply_transition_def)

lemma apply_transition_missing:
  "truthy (t_action w) = Some a \<Longrightarrow> lookup (cfg_actions (config env)) a = None \<Longrightarrow>
   apply_transition fuel ex env ev w m = Some (Some (action_not_found a), m\<lparr>m_state := t_to w\<rparr>)"
  by (simp add: apply_transition_def)

lemma apply_transition_action:
  "truthy (t_action w) = Some a \<Longrightarrow> lookup (cfg_actions (config env)) a = Some h \<Longrightarrow>
   apply_transition fuel ex env ev w (dispatching env ev m) =
     (case run ex (h (handler_params ev m)) (at_action env ev m w) of
        None \<Rightarrow> None
      | Some (Inl e, m2) \<Rightarrow> Some (Some e, m2)
      | Some (Inr None, m2) \<Rightarrow> map_option (Pair None) (notify fuel ex env m2)
      | Some (Inr (Some result), m2) \<Rightarrow>
          map_option (Pair None) (notify fuel ex env (m2\<lparr>m_context := m_context m2 ++ result\<rparr>)))"
  by (simp add: apply_transition_def at_action_def dispatching_def action_call_def observe_def
      handler_params_def getContext_def getProps_def Let_def)


lemma at_action_no_action:
  "truthy (t_action w) = None \<Longrightarrow> (dispatching env ev m)\<lparr>m_state := t_to w\<rparr> = at_action env ev m w"
  by (simp add: at_action_def dispatching_def action_call_def)



lemma api_0: "api 0 env c m = None"
  by simp

lemma api_Start: "api (Suc n) env Start m = Some (None, start m)"
  by simp

lemma api_Stop: "api (Suc n) env Stop m = Some (None, stop m)"
  by simp

lemma api_Send: "api (Suc n) env (Send ev) m = send n (api n env) env ev m"
  by simp

lemma api_Subscribe: "api (Suc n) env (Subscribe l options) m = subscribe (api n env) env l options m"
  by simp

lemma api_Unsubscribe: "api (Suc n) env (Unsubscribe l) m = Some (None, unsubscribe l m)"
  by simp

lemma api_SyncProps: "api (Suc n) env (SyncProps newProps) m = syncProps n (api n env) env newProps m"
  by simp

declare api.simps [simp del]


lemma send_dropped: "\<not> m_running m \<or> m_processing m \<Longrightarrow> send fuel ex env ev m = Some (None, m)"
  by (auto simp: send_def)


lemma listener_result_view:
  assumes "m_state m' = m_state m" "m_context m' = m_context m" "m_props m' = m_props m"
  shows "listener_result env m' l = listener_result env m l"
  unfolding listener_result_def view_def getState_def getContext_def getProps_def assms ..

lemma listener_obs_view:
  assumes "m_state m' = m_state m" "m_context m' = m_context m" "m_props m' = m_props m"
  shows "listener_obs env m' e = listener_obs env m e"
  unfolding listener_obs_def listener_result_view[OF assms] getContext_def getProps_def assms ..

lemma notifications_view:
  assumes "m_state m' = m_state m" "m_context m' = m_context m" "m_props m' = m_props m"
  shows "notifications env m' es = notifications env m es"
  unfolding notifications_def using listener_obs_view[OF assms] by (intro arg_cong[where f=concat] map_cong) simp_all

lemma quiet_listeners_view:
  assumes "m_state m' = m_state m" "m_context m' = m_context m" "m_props m' = m_props m"
    "m_listeners m' = m_listeners m"
  shows "quiet_listeners env m' = quiet_listeners env m"
  unfolding quiet_listeners_def listener_result_view[OF assms(1-3)] assms(4) ..

lemma notify_after:
  assumes q: "quiet_listeners env (after m w res)" and f: "length (m_listeners m) \<le> fuel"
    and np: "\<not> m_processing m"
  shows "map_option (\<lambda>m'. m'\<lparr>m_processing := False\<rparr>)
           (notify fuel ex env ((at_action env ev m w)\<lparr>m_context := m_context (after m w res)\<rparr>)) =
         Some (completed env ev m w res)"
proof -
  let ?B = "(at_action env ev m w)\<lparr>m_context := m_context (after m w res)\<rparr>"
  have s: "m_state ?B = m_state (after m w res)" "m_context ?B = m_context (after m w res)"
    "m_props ?B = m_props (after m w res)" "m_listeners ?B = m_listeners (after m w res)"
    by (simp_all add: at_action_def after_def)
  have qB: "quiet_listeners env ?B" using q quiet_listeners_view[OF s] by simp
  have lB: "length (m_listeners ?B) \<le> fuel" using f by (simp add: at_action_def)
  have n: "notifications env ?B (m_listeners ?B) = notifications env (after m w res) (m_listeners m)"
    using notifications_view[OF s(1-3)] by (simp add: at_action_def)
  have "(?B\<lparr>m_trace := m_trace ?B @ notifications env (after m w res) (m_listeners m)\<rparr>)\<lparr>m_processing := False\<rparr>
      = completed env ev m w res"
    using np by (simp add: completed_def after_def at_action_def Let_def)
  then show ?thesis
    unfolding notify_quiet[OF qB lB] n by simp
qed

lemma at_action_context: "(at_action env ev m w)\<lparr>m_context := m_context m\<rparr> = at_action env ev m w"
  by (simp add: at_action_def)

lemma send_completes:
  assumes r: "m_running m" and np: "\<not> m_processing m" and ngm: "no_guard_missing env ev m"
    and win: "winner env ev m = Some w"
    and act: "case truthy (t_action w) of
                None \<Rightarrow> res = None
              | Some a \<Rightarrow>
                  (case lookup (cfg_actions (config env)) a of
                     None \<Rightarrow> False
                   | Some h \<Rightarrow> run ex (h (handler_params ev m)) (at_action env ev m w) =
                       Some (Inr res, at_action env ev m w))"
    and q: "quiet_listeners env (after m w res)" and f: "length (m_listeners m) \<le> fuel"
  shows "send fuel ex env ev m = Some (None, completed env ev m w res)"
proof -
  have s: "send fuel ex env ev m =
      map_option (\<lambda>(thrown, m'). (thrown, m'\<lparr>m_processing := False\<rparr>))
        (apply_transition fuel ex env ev w (dispatching env ev m))"
    using send_dispatch[OF r np ngm, of fuel ex] win by simp
  let ?A = "at_action env ev m w"
  have n: "map_option (\<lambda>m'. m'\<lparr>m_processing := False\<rparr>)
      (notify fuel ex env (?A\<lparr>m_context := m_context (after m w res)\<rparr>)) = Some (completed env ev m w res)"
    using q f np by (rule notify_after)
  have "apply_transition fuel ex env ev w (dispatching env ev m) =
      map_option (Pair None) (notify fuel ex env (?A\<lparr>m_context := m_context (after m w res)\<rparr>))"
  proof (cases "truthy (t_action w)")
    case None
    with act have "res = None" by simp
    then have "?A\<lparr>m_context := m_context (after m w res)\<rparr> = ?A"
      by (simp add: after_def at_action_context)
    with None show ?thesis
      by (simp add: apply_transition_no_action at_action_no_action)
  next
    case (Some a)
    with act obtain h where h: "lookup (cfg_actions (config env)) a = Some h"
      and run: "run ex (h (handler_params ev m)) ?A = Some (Inr res, ?A)"
      by (auto split: option.splits)
    have c: "m_context ?A = m_context m" by (simp add: at_action_def)
    show ?thesis
    proof (cases res)
      case None
      then have "?A\<lparr>m_context := m_context (after m w res)\<rparr> = ?A"
        by (simp add: after_def at_action_context)
      with None run show ?thesis
        by (simp add: apply_transition_action[OF Some h])
    next
      case (Some result)
      then have "m_context (after m w res) = m_context ?A ++ result"
        by (simp add: after_def c)
      with Some run show ?thesis
        by (simp add: apply_transition_action[OF \<open>truthy (t_action w) = Some a\<close> h])
    qed
  qed
  with s n show ?thesis
    by (cases "notify fuel ex env (?A\<lparr>m_context := m_context (after m w res)\<rparr>)") simp_all
qed


lemmas notion_defs = no_guard_missing_def guard_missing_def candidates_def survives_def candidate_def
  winner_def by_priority_def prio_def lookup_def handler_params_def getContext_def getProps_def
  getState_def guard_calls_def guard_obs_def action_call_def quiet_listeners_def listener_result_def
  view_def completed_def after_def notifications_def listener_obs_def






lemma send_completes_quiet:
  assumes "m_running m" and "\<not> m_processing m" and "no_guard_missing env ev m"
    and "winner env ev m = Some w" and ar: "action_returns env ev m w res"
    and "quiet_listeners env (after m w res)" and "length (m_listeners m) \<le> fuel"
  shows "send fuel ex env ev m = Some (None, completed env ev m w res)"
proof -
  have v: "view (at_action env ev m w) = (t_to w, m_context m, m_props m)"
    by (simp add: view_def at_action_def getState_def getContext_def getProps_def)
  have "case truthy (t_action w) of
          None \<Rightarrow> res = None
        | Some a \<Rightarrow>
            (case lookup (cfg_actions (config env)) a of
               None \<Rightarrow> False
             | Some h \<Rightarrow> run ex (h (handler_params ev m)) (at_action env ev m w) =
                 Some (Inr res, at_action env ev m w))"
    using ar v by (auto simp: action_returns_def run_result_of split: option.splits)
  with assms(1-4) show ?thesis using assms(6,7) by (rule send_completes)
qed


lemma apply_transition_context:
  assumes l: "latched ex" and tr: "truthy (t_action w) = Some a"
    and h: "lookup (cfg_actions (config env)) a = Some h"
    and run: "run ex (h (handler_params ev m)) (at_action env ev m w) = Some (Inr res, m2)"
    and ap: "apply_transition fuel ex env ev w (dispatching env ev m) = Some (thrown, m')"
  shows "thrown = None \<and> m_context m' = (case res of None \<Rightarrow> m_context m | Some r \<Rightarrow> m_context m ++ r)"
proof -
  let ?A = "at_action env ev m w"
  have pA: "m_processing ?A" by (simp add: at_action_def)
  from l pA run have h2: "held ?A m2" by (rule run_held)
  then have c2: "m_context m2 = m_context m" and p2: "m_processing m2"
    by (simp_all add: held_def at_action_def)
  note eq = apply_transition_action[OF tr h, of fuel ex ev m]
  show ?thesis
  proof (cases res)
    case None
    with ap eq run obtain m3 where n: "notify fuel ex env m2 = Some m3" and r: "thrown = None" "m' = m3"
      by (cases "notify fuel ex env m2") auto
    from l p2 n have "held m2 m3" by (rule notify_held)
    with c2 r None show ?thesis by (simp add: held_def)
  next
    case (Some result)
    let ?m3 = "m2\<lparr>m_context := m_context m2 ++ result\<rparr>"
    from Some ap eq run obtain m4 where n: "notify fuel ex env ?m3 = Some m4"
      and r: "thrown = None" "m' = m4"
      by (cases "notify fuel ex env ?m3") auto
    have "m_processing ?m3" using p2 by simp
    with l have "held ?m3 m4" using n by (rule notify_held)
    with c2 r Some show ?thesis by (simp add: held_def)
  qed
qed

lemma grows_refl: "grows m m"
  by (simp add: grows_def)

lemma grows_trans: "grows a b \<Longrightarrow> grows b c \<Longrightarrow> grows a c"
  by (auto simp: grows_def)

lemma grows_observe: "grows m (observe x m)"
  by (simp add: grows_def observe_def)

lemma grows_same_trace: "m_trace m' = m_trace m \<Longrightarrow> grows m m'"
  by (simp add: grows_def)

lemma run_grows:
  assumes "expanding ex"
  shows "run ex p m = Some (r, m') \<Longrightarrow> grows m m'"
proof (induction p arbitrary: m)
  case (Return x)
  then show ?case by (simp add: grows_refl)
next
  case (Throw x)
  then show ?case by (simp add: grows_refl)
next
  case (Invoke c k)
  from Invoke.prems obtain thrown m1 where ex: "ex c m = Some (thrown, m1)"
    and rest: "run ex (k thrown) m1 = Some (r, m')"
    by (auto split: option.splits)
  from assms ex have "grows m m1" unfolding expanding_def by blast
  moreover from rest have "grows m1 m'" by (rule Invoke.IH[OF rangeI])
  ultimately show ?case by (rule grows_trans)
next
  case (Observe k)
  from Observe.prems show ?case by (intro Observe.IH[OF rangeI]) simp_all
qed

lemma call_listener_grows:
  assumes "expanding ex" "call_listener ex env l m = Some (r, m')"
  shows "\<exists>ext. m_trace m' = m_trace m @ ListenerCalled l (m_state m) (getContext m) (getProps m) # ext"
proof -
  let ?m1 = "observe (ListenerCalled l (m_state m) (getContext m) (getProps m)) m"
  from assms(2) have "run ex (listener env l (m_state m) (getContext m) (getProps m)) ?m1 = Some (r, m')"
    by (simp add: call_listener_def)
  with assms(1) have "grows ?m1 m'" by (rule run_grows)
  then show ?thesis by (auto simp: grows_def observe_def)
qed

lemma call_listener_grows': "expanding ex \<Longrightarrow> call_listener ex env l m = Some (r, m') \<Longrightarrow> grows m m'"
  by (drule (1) call_listener_grows) (auto simp: grows_def)

lemma notify_loop_grows:
  assumes "expanding ex"
  shows "notify_loop fuel ex env i m = Some m' \<Longrightarrow> grows m m'"
proof (induction fuel arbitrary: i m)
  case 0
  then show ?case by (simp add: grows_refl split: if_splits)
next
  case (Suc fuel)
  show ?case
  proof (cases "length (m_listeners m) \<le> i")
    case True
    with Suc.prems show ?thesis by (simp add: grows_refl)
  next
    case False
    show ?thesis
    proof (cases "m_listeners m ! i")
      case None
      with False Suc.prems Suc.IH show ?thesis by simp
    next
      case (Some l)
      with False Suc.prems obtain r m1 where cl: "call_listener ex env l m = Some (r, m1)"
        by (auto split: option.splits)
      from assms cl have h1: "grows m m1" by (rule call_listener_grows')
      show ?thesis
      proof (cases r)
        case (Inl e)
        with Some False cl Suc.prems
        have "notify_loop fuel ex env (Suc i) (observe (ConsoleError e) m1) = Some m'" by simp
        then have "grows (observe (ConsoleError e) m1) m'" by (rule Suc.IH)
        with grows_observe[of m1 "ConsoleError e"] have "grows m1 m'" by (rule grows_trans)
        with h1 show ?thesis by (rule grows_trans)
      next
        case (Inr u)
        with Some False cl Suc.prems
        have "notify_loop fuel ex env (Suc i) m1 = Some m'" by simp
        then have "grows m1 m'" by (rule Suc.IH)
        with h1 show ?thesis by (rule grows_trans)
      qed
    qed
  qed
qed

lemma notify_grows: "expanding ex \<Longrightarrow> notify fuel ex env m = Some m' \<Longrightarrow> grows m m'"
  unfolding notify_def by (rule notify_loop_grows)

lemma is_match_grows: "is_match env ev t m = (r, m') \<Longrightarrow> grows m m'"
  by (auto simp: is_match_def Let_def grows_refl grows_observe split: if_splits option.splits)

lemma filter_m_grows: "filter_m ts (is_match env ev) m = (r, m') \<Longrightarrow> grows m m'"
proof (induction ts arbitrary: m r m')
  case Nil
  then show ?case by (simp add: grows_refl)
next
  case (Cons t ts)
  obtain r1 m1 where 1: "is_match env ev t m = (r1, m1)" by (cases "is_match env ev t m")
  then have g1: "grows m m1" by (rule is_match_grows)
  show ?case
  proof (cases r1)
    case (Inl e)
    with 1 Cons.prems have "m' = m1" by simp
    with g1 show ?thesis by simp
  next
    case (Inr b)
    obtain r2 m2 where 2: "filter_m ts (is_match env ev) m1 = (r2, m2)"
      by (cases "filter_m ts (is_match env ev) m1")
    then have g2: "grows m1 m2" by (rule Cons.IH)
    from 1 2 Inr Cons.prems have "m' = m2" by (cases r2) auto
    with g1 g2 show ?thesis by (auto intro: grows_trans)
  qed
qed

lemma apply_transition_grows:
  assumes e: "expanding ex" and a: "apply_transition fuel ex env ev w m = Some (thrown, m')"
  shows "grows m m'"
proof -
  let ?m1 = "m\<lparr>m_state := t_to w\<rparr>"
  have g1: "grows m ?m1" by (simp add: grows_def)
  have "grows ?m1 m'"
  proof (cases "truthy (t_action w)")
    case None
    with a have "notify fuel ex env ?m1 = Some m'" by (auto simp: apply_transition_no_action)
    with e show ?thesis by (rule notify_grows)
  next
    case (Some act)
    show ?thesis
    proof (cases "lookup (cfg_actions (config env)) act")
      case None
      with Some a have "m' = ?m1" by (simp add: apply_transition_missing)
      then show ?thesis by (simp add: grows_refl)
    next
      case (Some h)
      let ?p = "\<lparr>p_context = getContext ?m1, p_event = ev, p_props = getProps ?m1\<rparr>"
      let ?m2 = "observe (ActionCalled act ?p) ?m1"
      have g2: "grows ?m1 ?m2" by (rule grows_observe)
      from a \<open>truthy (t_action w) = Some act\<close> Some obtain r m3
        where run: "run ex (h ?p) ?m2 = Some (r, m3)"
        by (auto simp: apply_transition_def Let_def split: option.splits)
      from e run have g3: "grows ?m2 m3" by (rule run_grows)
      have "grows m3 m'"
      proof (cases r)
        case (Inl x)
        with a \<open>truthy (t_action w) = Some act\<close> Some run have "m' = m3"
          by (simp add: apply_transition_def Let_def)
        then show ?thesis by (simp add: grows_refl)
      next
        case (Inr res)
        show ?thesis
        proof (cases res)
          case None
          with Inr a \<open>truthy (t_action w) = Some act\<close> Some run
          have "notify fuel ex env m3 = Some m'"
            by (auto simp: apply_transition_def Let_def)
          with e show ?thesis by (rule notify_grows)
        next
          case (Some result)
          with Inr a \<open>truthy (t_action w) = Some act\<close> \<open>lookup (cfg_actions (config env)) act = Some h\<close> run
          have "notify fuel ex env (m3\<lparr>m_context := m_context m3 ++ result\<rparr>) = Some m'"
            by (auto simp: apply_transition_def Let_def)
          with e have "grows (m3\<lparr>m_context := m_context m3 ++ result\<rparr>) m'" by (rule notify_grows)
          then show ?thesis by (simp add: grows_def)
        qed
      qed
      with g2 g3 show ?thesis by (blast intro: grows_trans)
    qed
  qed
  with g1 show ?thesis by (rule grows_trans)
qed

lemma send_grows:
  assumes e: "expanding ex" and s: "send fuel ex env ev m = Some (thrown, m')"
  shows "grows m m'"
proof (cases "\<not> m_running m \<or> m_processing m")
  case True
  with s show ?thesis by (auto simp: send_dropped grows_refl)
next
  case False
  let ?m0 = "m\<lparr>m_processing := True\<rparr>"
  from False s obtain m1 where t: "send_try fuel ex env ev ?m0 = Some (thrown, m1)"
    and m': "m' = m1\<lparr>m_processing := False\<rparr>"
    by (cases "send_try fuel ex env ev ?m0") (auto simp: send_def)
  obtain r m2 where f: "filter_m (cfg_transitions (config env)) (is_match env ev) ?m0 = (r, m2)"
    by (cases "filter_m (cfg_transitions (config env)) (is_match env ev) ?m0")
  then have g2: "grows ?m0 m2" by (rule filter_m_grows)
  have "grows m2 m1"
  proof (cases r)
    case (Inl x)
    with t f show ?thesis by (simp add: send_try_def grows_refl)
  next
    case (Inr found)
    show ?thesis
    proof (cases "sort_by by_priority found")
      case Nil
      with Inr t f show ?thesis by (auto simp: send_try_def grows_refl split: if_splits)
    next
      case (Cons w rest)
      show ?thesis
      proof (cases "found = []")
        case True
        with Inr t f show ?thesis by (simp add: send_try_def grows_refl)
      next
        case False
        with Inr Cons t f have "apply_transition fuel ex env ev w m2 = Some (thrown, m1)"
          by (simp add: send_try_def)
        with e show ?thesis by (rule apply_transition_grows)
      qed
    qed
  qed
  with g2 have "grows ?m0 m1" by (rule grows_trans)
  with m' show ?thesis by (simp add: grows_def)
qed

lemma api_expanding: "expanding (api n env)"
proof (induction n)
  case 0
  then show ?case by (simp add: expanding_def api_0)
next
  case (Suc n)
  show ?case unfolding expanding_def
  proof (intro allI impI)
    fix c :: "'a call" and m thrown m'
    assume a: "api (Suc n) env c m = Some (thrown, m')"
    show "grows m m'"
    proof (cases c)
      case Start
      with a show ?thesis by (auto simp: api_Start start_def grows_def split: if_splits)
    next
      case Stop
      with a show ?thesis by (auto simp: api_Stop stop_def grows_def split: if_splits)
    next
      case (Send ev)
      with a Suc show ?thesis by (auto simp: api_Send intro: send_grows)
    next
      case (Subscribe l options)
      let ?m1 = "m\<lparr>m_listeners := set_add l (m_listeners m)\<rparr>"
      have h1: "grows m ?m1" by (simp add: grows_def)
      show ?thesis
      proof (cases "case options of None \<Rightarrow> True | Some b \<Rightarrow> b")
        case True
        with a Subscribe obtain r where "call_listener (api n env) env l ?m1 = Some (r, m')"
          by (auto simp: api_Subscribe subscribe_def Let_def split: option.splits sum.splits)
        with Suc have "grows ?m1 m'" by (rule call_listener_grows')
        with h1 show ?thesis by (rule grows_trans)
      next
        case False
        with a Subscribe have "m' = ?m1" by (auto simp: api_Subscribe subscribe_def Let_def)
        with h1 show ?thesis by simp
      qed
    next
      case (Unsubscribe l)
      with a show ?thesis by (auto simp: api_Unsubscribe unsubscribe_def grows_def)
    next
      case (SyncProps newProps)
      let ?m1 = "m\<lparr>m_props := merge (m_props m) newProps\<rparr>"
      have h1: "grows m ?m1" by (simp add: grows_def)
      from a SyncProps have "notify n (api n env) env ?m1 = Some m'"
        by (auto simp: api_SyncProps syncProps_def)
      with Suc have "grows ?m1 m'" by (rule notify_grows)
      with h1 show ?thesis by (rule grows_trans)
    qed
  qed
qed

lemma registered_Nil [simp]: "registered [] = []"
  by (simp add: registered_def)

lemma registered_Cons [simp]:
  "registered (entry # ls) = (case entry of None \<Rightarrow> [] | Some l \<Rightarrow> [l]) @ registered ls"
  by (simp add: registered_def)

lemma registered_append [simp]: "registered (xs @ ys) = registered xs @ registered ys"
  by (simp add: registered_def)

lemma set_registered: "set (registered ls) = {l. Some l \<in> set ls}"
  by (induction ls) (auto split: option.splits)

lemma registered_set_add:
  "registered (set_add l ls) = (if l \<in> set (registered ls) then registered ls else registered ls @ [l])"
  by (simp add: set_add_def set_registered)

lemma registered_set_delete: "registered (set_delete l ls) = filter (\<lambda>x. x \<noteq> l) (registered ls)"
  by (induction ls) (auto simp: set_delete_def split: option.splits)

lemma set_delete_idem: "set_delete l (set_delete l ls) = set_delete l ls"
  by (induction ls) (auto simp: set_delete_def)

lemma notifications_only_registered:
  "ListenerCalled l s c p \<in> set (notifications env m ls) \<Longrightarrow> l \<in> set (registered ls)"
  by (induction ls) (auto simp: notifications_def listener_obs_def split: option.splits sum.splits)

lemma subscribe_quiet:
  assumes "options = None \<or> options = Some True" and "listener_result env m l = Some r"
  shows "subscribe ex env l options m =
     Some (case r of Inl e \<Rightarrow> Some e | Inr u \<Rightarrow> None,
           m\<lparr>m_listeners := set_add l (m_listeners m),
             m_trace := m_trace m @ [ListenerCalled l (m_state m) (getContext m) (getProps m)]\<rparr>)"
proof -
  let ?m1 = "m\<lparr>m_listeners := set_add l (m_listeners m)\<rparr>"
  have "listener_result env ?m1 l = Some r"
    using assms(2) listener_result_view[of ?m1 m env l] by simp
  from call_listener_quiet[OF this, of ex "m_trace m"]
  have "call_listener ex env l ?m1 =
      Some (r, ?m1\<lparr>m_trace := m_trace m @ [ListenerCalled l (m_state m) (getContext m) (getProps m)]\<rparr>)"
    by (simp add: getContext_def getProps_def)
  with assms(1) show ?thesis
    by (cases r) (auto simp: subscribe_def Let_def)
qed

lemma notifications_Nil [simp]: "notifications env m [] = []"
  by (simp add: notifications_def)

lemma notifications_Cons [simp]:
  "notifications env m (entry # ls) = listener_obs env m entry @ notifications env m ls"
  by (simp add: notifications_def)





lemma snapshot_props:
  assumes "src < length h" and "snapshot src h = (a, h')"
  shows "a = length h" and "length h' = Suc (length h)"
    and "h' ! a = \<lparr> o_fields = o_fields (h ! src), o_frozen = True \<rparr>"
    and "\<forall>b<length h. h' ! b = h ! b"
  using assms by (auto simp: snapshot_def alloc_def freeze_def nth_append)

lemma assign_frozen: "o_frozen (h ! a) \<Longrightarrow> assign a k v h = Inl (Error ''TypeError'')"
  by (simp add: assign_def)

text \<open>An object that is frozen stays as it is, and the variables stay in the heap.\<close>
lemma heap_step_keeps_frozen:
  assumes "a < length (s_heap s)" and "o_frozen (s_heap s ! a)" and "well_formed s"
  shows "a < length (s_heap (heap_step s x)) \<and> s_heap (heap_step s x) ! a = s_heap s ! a \<and>
     well_formed (heap_step s x) \<and> length (s_heap s) \<le> length (s_heap (heap_step s x)) \<and>
     (s_context (heap_step s x) = s_context s \<or> length (s_heap s) \<le> s_context (heap_step s x)) \<and>
     (s_props (heap_step s x) = s_props s \<or> length (s_heap s) \<le> s_props (heap_step s x))"
proof (cases x)
  case GetContext
  with assms show ?thesis
    by (auto simp: getContext_heap_def snapshot_def alloc_def freeze_def well_formed_def nth_append
        nth_list_update)
next
  case GetProps
  with assms show ?thesis
    by (auto simp: getProps_heap_def snapshot_def alloc_def freeze_def well_formed_def nth_append
        nth_list_update)
next
  case (SetContext result)
  with assms show ?thesis
    by (auto simp: set_context_def alloc_def well_formed_def nth_append)
next
  case (SetProps newProps)
  with assms show ?thesis
    by (auto simp: set_props_def alloc_def well_formed_def nth_append)
next
  case (Assign b k v)
  with assms show ?thesis
    by (auto simp: assign_def well_formed_def nth_list_update)
qed

lemma heap_steps_keep_frozen:
  assumes "a < length (s_heap s)" and "o_frozen (s_heap s ! a)" and "well_formed s"
    and "s_context s \<noteq> a" and "s_props s \<noteq> a"
  shows "a < length (s_heap (heap_steps s ops)) \<and> s_heap (heap_steps s ops) ! a = s_heap s ! a \<and>
     well_formed (heap_steps s ops) \<and>
     s_context (heap_steps s ops) \<noteq> a \<and> s_props (heap_steps s ops) \<noteq> a"
  using assms
proof (induction ops arbitrary: s)
  case Nil
  then show ?case by (simp add: heap_steps_def)
next
  case (Cons x ops)
  from heap_step_keeps_frozen[OF Cons.prems(1-3), of x]
  have 1: "a < length (s_heap (heap_step s x))" "s_heap (heap_step s x) ! a = s_heap s ! a"
    "well_formed (heap_step s x)"
    and c: "s_context (heap_step s x) = s_context s \<or> length (s_heap s) \<le> s_context (heap_step s x)"
    and p: "s_props (heap_step s x) = s_props s \<or> length (s_heap s) \<le> s_props (heap_step s x)"
    by blast+
  from c Cons.prems(1,4) have 2: "s_context (heap_step s x) \<noteq> a" by auto
  from p Cons.prems(1,5) have 3: "s_props (heap_step s x) \<noteq> a" by auto
  from 1(2) Cons.prems(2) have 4: "o_frozen (s_heap (heap_step s x) ! a)" by simp
  from Cons.IH[OF 1(1) 4 1(3) 2 3] 1(2) show ?case by (simp add: heap_steps_def)
qed

lemma set_context_fields:
  "o_fields (s_heap (set_context result s) ! s_context (set_context result s)) =
     o_fields (s_heap s ! s_context s) ++ result"
  by (simp add: set_context_def alloc_def)

lemma set_props_fields:
  "o_fields (s_heap (set_props newProps s) ! s_props (set_props newProps s)) =
     merge (o_fields (s_heap s ! s_props s)) newProps"
  by (simp add: set_props_def alloc_def)

section \<open>The claims\<close>













text \<open>
  Claim C6. On a running machine with no dispatch in progress where the filtering
  completes and the winner names an action that has a handler: whatever the handler
  does besides, when it returns \<open>res\<close> and \<^verbatim>\<open>send\<close> returns, \<^verbatim>\<open>send\<close> has thrown nothing and
  the context is the context from before the dispatch with the returned mapping laid over
  it (the returned keys overwrite, all others are retained), or the context from before
  when the handler returned nothing. When the handler and the listeners make no call of
  the machine, \<^verbatim>\<open>send\<close> does return, with that context.
\<close>

theorem action_result_is_merged:
  assumes "m_running m" and "\<not> m_processing m" and "no_guard_missing env ev m"
    and "winner env ev m = Some w"
    and "t_action w = Some a" and "a \<noteq> []" and "lookup (cfg_actions (config env)) a = Some h"
  shows "(\<forall>n res m2 thrown m'.
        run (api n env) (h (handler_params ev m)) (at_action env ev m w) = Some (Inr res, m2) \<and>
        api (Suc n) env (Send ev) m = Some (thrown, m') \<longrightarrow>
        thrown = None \<and>
        m_context m' = (case res of None \<Rightarrow> m_context m | Some r \<Rightarrow> m_context m ++ r)) \<and>
     (\<forall>n res.
        result_of (h (handler_params ev m)) (t_to w, m_context m, m_props m) = Some (Inr res) \<and>
        quiet_listeners env (after m w res) \<and> length (m_listeners m) \<le> n \<longrightarrow>
        api (Suc n) env (Send ev) m = Some (None, completed env ev m w res) \<and>
        m_context (completed env ev m w res) =
          (case res of None \<Rightarrow> m_context m | Some r \<Rightarrow> m_context m ++ r))"
proof (intro conjI allI impI)
  from assms(5,6) have tr: "truthy (t_action w) = Some a" by simp
  {
    fix n res m2 thrown m'
    assume a: "run (api n env) (h (handler_params ev m)) (at_action env ev m w) = Some (Inr res, m2) \<and>
        api (Suc n) env (Send ev) m = Some (thrown, m')"
    then have s: "send n (api n env) env ev m = Some (thrown, m')" by (simp add: api_Send)
    with send_dispatch[OF assms(1-3), of n "api n env"] assms(4)
    obtain m1 where ap: "apply_transition n (api n env) env ev w (dispatching env ev m) = Some (thrown, m1)"
      and m': "m' = m1\<lparr>m_processing := False\<rparr>"
      by (cases "apply_transition n (api n env) env ev w (dispatching env ev m)") auto
    from a have run: "run (api n env) (h (handler_params ev m)) (at_action env ev m w) = Some (Inr res, m2)"
      by simp
    from apply_transition_context[OF api_latched tr assms(7) run ap] m'
    show "thrown = None" and "m_context m' = (case res of None \<Rightarrow> m_context m | Some r \<Rightarrow> m_context m ++ r)"
      by simp_all
  }
  {
    fix n res
    assume a: "result_of (h (handler_params ev m)) (t_to w, m_context m, m_props m) = Some (Inr res) \<and>
        quiet_listeners env (after m w res) \<and> length (m_listeners m) \<le> n"
    with tr assms(7) have ar: "action_returns env ev m w res" by (simp add: action_returns_def)
    from a send_completes_quiet[OF assms(1-4) ar, of n "api n env"]
    show "api (Suc n) env (Send ev) m = Some (None, completed env ev m w res)"
      by (simp add: api_Send)
    show "m_context (completed env ev m w res) =
          (case res of None \<Rightarrow> m_context m | Some r \<Rightarrow> m_context m ++ r)"
      by (simp add: completed_def after_def)
  }
qed

text \<open>
  The test \<^verbatim>\<open>should merge action result with existing context\<close>: the context
  \<^verbatim>\<open>{ count: 5 }\<close> becomes exactly \<^verbatim>\<open>{ count: 15 }\<close>; a key that the handler does not
  return is retained; a handler that returns nothing leaves the context as it is.
\<close>

theorem action_result_is_merged_witness:
  "api 1 merging_env (Send toggle) (start (createMachine merging_config)) =
     Some (None, (start (createMachine merging_config))
       \<lparr>m_state := ''red'', m_context := [''count'' \<mapsto> 15],
        m_trace := [ActionCalled ''increment''
                      \<lparr>p_context = [''count'' \<mapsto> 5], p_event = toggle, p_props = Map.empty\<rparr>]\<rparr>)
   \<and> api 1 merging_env (Send toggle)
         ((start (createMachine merging_config))\<lparr>m_context := [''step'' \<mapsto> 1, ''count'' \<mapsto> 5]\<rparr>) =
     Some (None, (start (createMachine merging_config))
       \<lparr>m_state := ''red'', m_context := [''step'' \<mapsto> 1, ''count'' \<mapsto> 15],
        m_trace := [ActionCalled ''increment''
                      \<lparr>p_context = [''step'' \<mapsto> 1, ''count'' \<mapsto> 5], p_event = toggle,
                        p_props = Map.empty\<rparr>]\<rparr>)
   \<and> api 1 merging_env (Send toggle) ((start (createMachine merging_config))\<lparr>m_state := ''red''\<rparr>) =
     Some (None, (start (createMachine merging_config))
       \<lparr>m_state := ''green'',
        m_trace := [ActionCalled ''idle''
                      \<lparr>p_context = [''count'' \<mapsto> 5], p_event = toggle, p_props = Map.empty\<rparr>]\<rparr>)"
proof (intro conjI)
  let ?m = "start (createMachine merging_config)"
  let ?k = "?m\<lparr>m_context := [''step'' \<mapsto> 1, ''count'' \<mapsto> 5]\<rparr>"
  let ?r = "?m\<lparr>m_state := ''red''\<rparr>"
  let ?ret = "(edge ''red'' ''TOGGLE'' ''green'')\<lparr>t_action := Some ''idle''\<rparr>"
  note defs = notion_defs merging_env_def merging_config_def merging_edge_def add_ten_def
    createMachine_def start_def edge_def toggle_def
  have "api (Suc 0) merging_env (Send toggle) ?m =
      Some (None, completed merging_env toggle ?m merging_edge (Some [''count'' \<mapsto> 15]))"
    using action_result_is_merged[where m="?m" and env=merging_env and ev=toggle and w=merging_edge
        and a="''increment''" and h=add_ten, THEN conjunct2, rule_format,
        of "Some [''count'' \<mapsto> 15]" 0]
    by (simp add: defs)
  then show "api 1 merging_env (Send toggle) ?m =
     Some (None, ?m
       \<lparr>m_state := ''red'', m_context := [''count'' \<mapsto> 15],
        m_trace := [ActionCalled ''increment''
                      \<lparr>p_context = [''count'' \<mapsto> 5], p_event = toggle, p_props = Map.empty\<rparr>]\<rparr>)"
    by (simp add: defs)
  have "api (Suc 0) merging_env (Send toggle) ?k =
      Some (None, completed merging_env toggle ?k merging_edge (Some [''count'' \<mapsto> 15]))"
    using action_result_is_merged[where m="?k" and env=merging_env and ev=toggle and w=merging_edge
        and a="''increment''" and h=add_ten, THEN conjunct2, rule_format,
        of "Some [''count'' \<mapsto> 15]" 0]
    by (simp add: defs)
  then show "api 1 merging_env (Send toggle) ?k =
     Some (None, ?m
       \<lparr>m_state := ''red'', m_context := [''step'' \<mapsto> 1, ''count'' \<mapsto> 15],
        m_trace := [ActionCalled ''increment''
                      \<lparr>p_context = [''step'' \<mapsto> 1, ''count'' \<mapsto> 5], p_event = toggle,
                        p_props = Map.empty\<rparr>]\<rparr>)"
    by (simp add: defs)
  have "api (Suc 0) merging_env (Send toggle) ?r =
      Some (None, completed merging_env toggle ?r ?ret None)"
    using action_result_is_merged[where m="?r" and env=merging_env and ev=toggle and w="?ret"
        and a="''idle''" and h="\<lambda>p. Return None", THEN conjunct2, rule_format, of None 0]
    by (simp add: defs)
  then show "api 1 merging_env (Send toggle) ?r =
     Some (None, ?m
       \<lparr>m_state := ''green'',
        m_trace := [ActionCalled ''idle''
                      \<lparr>p_context = [''count'' \<mapsto> 5], p_event = toggle, p_props = Map.empty\<rparr>]\<rparr>)"
    by (simp add: defs)
qed

text \<open>
  Claim C7. With the default options and with \<^verbatim>\<open>{ immediate: true }\<close>, every \<^verbatim>\<open>subscribe\<close>
  that returns has called the listener, first thing, with the current state, context and
  props; for a listener that makes no call of the machine this is the only call, the
  listener is registered, and \<^verbatim>\<open>subscribe\<close> returns (with what the listener threw, if it
  did). With \<^verbatim>\<open>{ immediate: false }\<close> the listener is registered and nothing is called. The
  function returned removes that listener and keeps every other one, in order; calling it
  a second time changes nothing; and a notification of listeners that make no call of the
  machine does not call the removed one.
\<close>

theorem subscribe_calls_once_unsubscribe_removes:
  "(options = None \<or> options = Some True \<longrightarrow>
      (\<forall>k thrown m'. api k env (Subscribe l options) m = Some (thrown, m') \<longrightarrow>
         (\<exists>ext. m_trace m' =
            m_trace m @ ListenerCalled l (m_state m) (getContext m) (getProps m) # ext)) \<and>
      (\<forall>r. listener_result env m l = Some r \<longrightarrow>
         api (Suc n) env (Subscribe l options) m =
           Some (case r of Inl e \<Rightarrow> Some e | Inr u \<Rightarrow> None,
                 m\<lparr>m_listeners := set_add l (m_listeners m),
                   m_trace := m_trace m @ [ListenerCalled l (m_state m) (getContext m) (getProps m)]\<rparr>)))
   \<and> api (Suc n) env (Subscribe l (Some False)) m =
       Some (None, m\<lparr>m_listeners := set_add l (m_listeners m)\<rparr>)
   \<and> registered (set_add l (m_listeners m)) =
       (if l \<in> set (registered (m_listeners m)) then registered (m_listeners m)
        else registered (m_listeners m) @ [l])
   \<and> api (Suc n) env (Unsubscribe l) m = Some (None, unsubscribe l m)
   \<and> unsubscribe l m = m\<lparr>m_listeners := set_delete l (m_listeners m)\<rparr>
   \<and> registered (m_listeners (unsubscribe l m)) = filter (\<lambda>x. x \<noteq> l) (registered (m_listeners m))
   \<and> unsubscribe l (unsubscribe l m) = unsubscribe l m
   \<and> (\<forall>fuel ex m2. m_listeners m2 = m_listeners (unsubscribe l m) \<and> quiet_listeners env m2 \<and>
          length (m_listeners m2) \<le> fuel \<longrightarrow>
          notify fuel ex env m2 =
            Some (m2\<lparr>m_trace := m_trace m2 @ notifications env m2 (m_listeners m2)\<rparr>) \<and>
          (\<forall>s c p. ListenerCalled l s c p \<notin> set (notifications env m2 (m_listeners m2))))"
proof (intro conjI impI allI)
  fix k thrown m'
  assume o: "options = None \<or> options = Some True"
    and a: "api k env (Subscribe l options) m = Some (thrown, m')"
  from a obtain j where k: "k = Suc j" by (cases k) (auto simp: api_0)
  let ?m1 = "m\<lparr>m_listeners := set_add l (m_listeners m)\<rparr>"
  from a k o obtain r where "call_listener (api j env) env l ?m1 = Some (r, m')"
    by (auto simp: api_Subscribe subscribe_def Let_def split: option.splits sum.splits)
  from call_listener_grows[OF api_expanding this]
  show "\<exists>ext. m_trace m' = m_trace m @ ListenerCalled l (m_state m) (getContext m) (getProps m) # ext"
    by (simp add: getContext_def getProps_def)
next
  fix r
  assume "options = None \<or> options = Some True" and "listener_result env m l = Some r"
  then show "api (Suc n) env (Subscribe l options) m =
           Some (case r of Inl e \<Rightarrow> Some e | Inr u \<Rightarrow> None,
                 m\<lparr>m_listeners := set_add l (m_listeners m),
                   m_trace := m_trace m @ [ListenerCalled l (m_state m) (getContext m) (getProps m)]\<rparr>)"
    by (simp add: api_Subscribe subscribe_quiet)
next
  show "api (Suc n) env (Subscribe l (Some False)) m =
       Some (None, m\<lparr>m_listeners := set_add l (m_listeners m)\<rparr>)"
    by (simp add: api_Subscribe subscribe_def)
next
  show "registered (set_add l (m_listeners m)) =
       (if l \<in> set (registered (m_listeners m)) then registered (m_listeners m)
        else registered (m_listeners m) @ [l])"
    by (rule registered_set_add)
next
  show "api (Suc n) env (Unsubscribe l) m = Some (None, unsubscribe l m)"
    by (rule api_Unsubscribe)
next
  show "unsubscribe l m = m\<lparr>m_listeners := set_delete l (m_listeners m)\<rparr>"
    by (rule unsubscribe_def)
next
  show "registered (m_listeners (unsubscribe l m)) = filter (\<lambda>x. x \<noteq> l) (registered (m_listeners m))"
    by (simp add: unsubscribe_def registered_set_delete)
next
  show "unsubscribe l (unsubscribe l m) = unsubscribe l m"
    by (simp add: unsubscribe_def set_delete_idem)
next
  fix fuel ex and m2 :: "'a machine"
  assume a: "m_listeners m2 = m_listeners (unsubscribe l m) \<and> quiet_listeners env m2 \<and>
          length (m_listeners m2) \<le> fuel"
  then have "quiet_listeners env m2" and "length (m_listeners m2) \<le> fuel" by blast+
  then show "notify fuel ex env m2 =
            Some (m2\<lparr>m_trace := m_trace m2 @ notifications env m2 (m_listeners m2)\<rparr>)"
    by (rule notify_quiet)
  fix s c p
  show "ListenerCalled l s c p \<notin> set (notifications env m2 (m_listeners m2))"
  proof
    assume "ListenerCalled l s c p \<in> set (notifications env m2 (m_listeners m2))"
    then have "l \<in> set (registered (m_listeners m2))" by (rule notifications_only_registered)
    with a show False by (simp add: unsubscribe_def registered_set_delete)
  qed
qed

text \<open>
  The tests \<^verbatim>\<open>should notify immediately when immediate is true\<close> and
  \<^verbatim>\<open>should not notify when unsubscribed\<close>.
\<close>

theorem subscribe_calls_once_unsubscribe_removes_witness:
  "api 1 watched_env (Subscribe 0 None) (createMachine watched_config) =
     Some (None, (createMachine watched_config)
       \<lparr>m_listeners := [Some 0],
        m_trace := [ListenerCalled 0 ''green'' [''count'' \<mapsto> 5] [''maxCount'' \<mapsto> 10]]\<rparr>)
   \<and> api 1 watched_env (Subscribe 0 (Some True)) (createMachine watched_config) =
     Some (None, (createMachine watched_config)
       \<lparr>m_listeners := [Some 0],
        m_trace := [ListenerCalled 0 ''green'' [''count'' \<mapsto> 5] [''maxCount'' \<mapsto> 10]]\<rparr>)
   \<and> api 1 watched_env (Subscribe 0 (Some False)) (createMachine watched_config) =
     Some (None, (createMachine watched_config)\<lparr>m_listeners := [Some 0]\<rparr>)
   \<and> api 1 watched_env (Unsubscribe 0) ((createMachine watched_config)\<lparr>m_listeners := [Some 0, Some 1]\<rparr>) =
     Some (None, (createMachine watched_config)\<lparr>m_listeners := [None, Some 1]\<rparr>)
   \<and> notify 2 (api 0 watched_env) watched_env ((createMachine watched_config)\<lparr>m_listeners := [None, Some 1]\<rparr>) =
     Some ((createMachine watched_config)
       \<lparr>m_listeners := [None, Some 1],
        m_trace := [ListenerCalled 1 ''green'' [''count'' \<mapsto> 5] [''maxCount'' \<mapsto> 10]]\<rparr>)"
proof -
  let ?m = "createMachine watched_config"
  let ?two = "?m\<lparr>m_listeners := [Some 0, Some 1]\<rparr>"
  note defs = notion_defs watched_env_def watched_config_def createMachine_def silent_def
    set_add_def set_delete_def unsubscribe_def
  note a = subscribe_calls_once_unsubscribe_removes[where env=watched_env and l=0 and m="?m"
        and n=0 and options=None]
  note b = subscribe_calls_once_unsubscribe_removes[where env=watched_env and l=0 and m="?m"
        and n=0 and options="Some True"]
  note c = subscribe_calls_once_unsubscribe_removes[where env=watched_env and l=0 and m="?two"
        and n=0 and options=None]
  have 1: "api 1 watched_env (Subscribe 0 None) ?m =
     Some (None, ?m\<lparr>m_listeners := [Some 0],
        m_trace := [ListenerCalled 0 ''green'' [''count'' \<mapsto> 5] [''maxCount'' \<mapsto> 10]]\<rparr>)"
    using a[THEN conjunct1, rule_format, THEN conjunct2, rule_format, of "Inr ()"]
    by (simp add: defs)
  have 2: "api 1 watched_env (Subscribe 0 (Some True)) ?m =
     Some (None, ?m\<lparr>m_listeners := [Some 0],
        m_trace := [ListenerCalled 0 ''green'' [''count'' \<mapsto> 5] [''maxCount'' \<mapsto> 10]]\<rparr>)"
    using b[THEN conjunct1, rule_format, THEN conjunct2, rule_format, of "Inr ()"]
    by (simp add: defs)
  have 3: "api 1 watched_env (Subscribe 0 (Some False)) ?m = Some (None, ?m\<lparr>m_listeners := [Some 0]\<rparr>)"
    using a[THEN conjunct2, THEN conjunct1] by (simp add: defs)
  have 4: "api 1 watched_env (Unsubscribe 0) ?two = Some (None, ?m\<lparr>m_listeners := [None, Some 1]\<rparr>)"
    using c[THEN conjunct2, THEN conjunct2, THEN conjunct2, THEN conjunct1] by (simp add: defs)
  have 5: "notify 2 (api 0 watched_env) watched_env (?m\<lparr>m_listeners := [None, Some 1]\<rparr>) =
     Some (?m\<lparr>m_listeners := [None, Some 1],
        m_trace := [ListenerCalled 1 ''green'' [''count'' \<mapsto> 5] [''maxCount'' \<mapsto> 10]]\<rparr>)"
    using c[THEN conjunct2, THEN conjunct2, THEN conjunct2, THEN conjunct2, THEN conjunct2,
          THEN conjunct2, THEN conjunct2, rule_format,
          of "?m\<lparr>m_listeners := [None, Some 1]\<rparr>" 2 "api 0 watched_env", THEN conjunct1]
    by (simp add: defs)
  from 1 2 3 4 5 show ?thesis by blast
qed



text \<open>
  Claim C9. In a store whose variables hold addresses of its heap, \<^verbatim>\<open>getContext()\<close>
  (\<^verbatim>\<open>getProps()\<close>) returns the address of a new object: it is no object that existed, so it
  is not the object of \<^verbatim>\<open>context\<close> or \<^verbatim>\<open>props\<close>, which the variables still hold; it has the
  properties of the internal object and is frozen; every object that existed is as it
  was. Whatever happens later (transitions that assign the context, \<^verbatim>\<open>syncProps\<close>, other
  snapshots, writes by anybody to any object), a write to the snapshot throws and changes
  nothing, the snapshot keeps the properties it was taken with, the variables never hold
  it, and every snapshot retrieved later is another object.
\<close>

theorem snapshot_is_fresh_frozen_copy:
  assumes "well_formed s"
    and "getContext_heap s = (a, s1) \<and> src = s_context s \<or>
         getProps_heap s = (a, s1) \<and> src = s_props s"
  shows "a = length (s_heap s) \<and> a \<noteq> s_context s1 \<and> a \<noteq> s_props s1 \<and>
     s_context s1 = s_context s \<and> s_props s1 = s_props s \<and>
     s_heap s1 ! a = \<lparr> o_fields = o_fields (s_heap s ! src), o_frozen = True \<rparr> \<and>
     (\<forall>b<length (s_heap s). s_heap s1 ! b = s_heap s ! b) \<and>
     (\<forall>ops k v.
        s_heap (heap_steps s1 ops) ! a = s_heap s1 ! a \<and>
        s_context (heap_steps s1 ops) \<noteq> a \<and> s_props (heap_steps s1 ops) \<noteq> a \<and>
        assign a k v (s_heap (heap_steps s1 ops)) = Inl (Error ''TypeError'') \<and>
        heap_step (heap_steps s1 ops) (Assign a k v) = heap_steps s1 ops) \<and>
     (\<forall>ops a2 s3.
        getContext_heap (heap_steps s1 ops) = (a2, s3) \<or> getProps_heap (heap_steps s1 ops) = (a2, s3) \<longrightarrow>
        a2 \<noteq> a \<and> s_heap s3 ! a = s_heap s1 ! a)"
proof -
  from assms(1) have src: "src < length (s_heap s)" using assms(2) by (auto simp: well_formed_def)
  from assms(2) obtain h where sn: "snapshot src (s_heap s) = (a, h)" and s1: "s1 = s\<lparr>s_heap := h\<rparr>"
    by (auto simp: getContext_heap_def getProps_heap_def split: prod.splits)
  note sp = snapshot_props[OF src sn]
  have a: "a = length (s_heap s)" by (rule sp(1))
  have vars: "s_context s1 = s_context s" "s_props s1 = s_props s" by (simp_all add: s1)
  from assms(1) a vars have ne: "a \<noteq> s_context s1" "a \<noteq> s_props s1" by (auto simp: well_formed_def)
  have obj: "s_heap s1 ! a = \<lparr> o_fields = o_fields (s_heap s ! src), o_frozen = True \<rparr>"
    using sp(3) by (simp add: s1)
  have old: "\<forall>b<length (s_heap s). s_heap s1 ! b = s_heap s ! b" using sp(4) by (simp add: s1)
  have len: "a < length (s_heap s1)" using sp(2) a by (simp add: s1)
  have fr: "o_frozen (s_heap s1 ! a)" by (simp add: obj)
  have wf1: "well_formed s1" using assms(1) sp(2) by (simp add: well_formed_def s1)
  have later: "\<And>ops. a < length (s_heap (heap_steps s1 ops)) \<and>
      s_heap (heap_steps s1 ops) ! a = s_heap s1 ! a \<and> well_formed (heap_steps s1 ops) \<and>
      s_context (heap_steps s1 ops) \<noteq> a \<and> s_props (heap_steps s1 ops) \<noteq> a"
    using heap_steps_keep_frozen[OF len fr wf1 ne(1)[symmetric] ne(2)[symmetric]] by blast
  have 1: "\<forall>ops k v.
        s_heap (heap_steps s1 ops) ! a = s_heap s1 ! a \<and>
        s_context (heap_steps s1 ops) \<noteq> a \<and> s_props (heap_steps s1 ops) \<noteq> a \<and>
        assign a k v (s_heap (heap_steps s1 ops)) = Inl (Error ''TypeError'') \<and>
        heap_step (heap_steps s1 ops) (Assign a k v) = heap_steps s1 ops"
  proof (intro allI)
    fix ops k v
    from later[of ops] fr have f: "o_frozen (s_heap (heap_steps s1 ops) ! a)" by simp
    then have "assign a k v (s_heap (heap_steps s1 ops)) = Inl (Error ''TypeError'')"
      by (rule assign_frozen)
    with later[of ops] show "s_heap (heap_steps s1 ops) ! a = s_heap s1 ! a \<and>
        s_context (heap_steps s1 ops) \<noteq> a \<and> s_props (heap_steps s1 ops) \<noteq> a \<and>
        assign a k v (s_heap (heap_steps s1 ops)) = Inl (Error ''TypeError'') \<and>
        heap_step (heap_steps s1 ops) (Assign a k v) = heap_steps s1 ops"
      by simp
  qed
  have 2: "\<forall>ops a2 s3.
        getContext_heap (heap_steps s1 ops) = (a2, s3) \<or> getProps_heap (heap_steps s1 ops) = (a2, s3) \<longrightarrow>
        a2 \<noteq> a \<and> s_heap s3 ! a = s_heap s1 ! a"
  proof (intro allI impI)
    fix ops a2 s3
    let ?s = "heap_steps s1 ops"
    assume g: "getContext_heap ?s = (a2, s3) \<or> getProps_heap ?s = (a2, s3)"
    then obtain src2 h2 where sn2: "snapshot src2 (s_heap ?s) = (a2, h2)" and s3: "s3 = ?s\<lparr>s_heap := h2\<rparr>"
      and src2: "src2 = s_context ?s \<or> src2 = s_props ?s"
      by (auto simp: getContext_heap_def getProps_heap_def split: prod.splits)
    from later[of ops] src2 have "src2 < length (s_heap ?s)" by (auto simp: well_formed_def)
    note sp2 = snapshot_props[OF this sn2]
    from sp2(1) later[of ops] have "a2 \<noteq> a" by simp
    moreover from sp2(4) later[of ops] have "s_heap s3 ! a = s_heap s1 ! a" by (simp add: s3)
    ultimately show "a2 \<noteq> a \<and> s_heap s3 ! a = s_heap s1 ! a" ..
  qed
  from a ne vars obj old 1 2 show ?thesis by blast
qed

text \<open>
  A snapshot of \<^verbatim>\<open>{ count: 0 }\<close> is object 2; a write to it throws; after a transition that
  sets \<^verbatim>\<open>count\<close> to 1 it still says 0, and a new snapshot (object 4) says 1.
\<close>

theorem snapshot_is_fresh_frozen_copy_witness:
  "fst (getContext_heap light_store) = 2
   \<and> s_heap (snd (getContext_heap light_store)) ! 2 = \<lparr> o_fields = [''count'' \<mapsto> 0], o_frozen = True \<rparr>
   \<and> assign 2 ''count'' 10 (s_heap (snd (getContext_heap light_store))) = Inl (Error ''TypeError'')
   \<and> s_heap (heap_steps (snd (getContext_heap light_store))
               [SetContext [''count'' \<mapsto> 1], Assign 2 ''count'' 10, GetContext]) ! 2 =
       \<lparr> o_fields = [''count'' \<mapsto> 0], o_frozen = True \<rparr>
   \<and> fst (getContext_heap (heap_steps (snd (getContext_heap light_store)) [SetContext [''count'' \<mapsto> 1]])) = 4
   \<and> s_heap (snd (getContext_heap (heap_steps (snd (getContext_heap light_store)) [SetContext [''count'' \<mapsto> 1]]))) ! 4 =
       \<lparr> o_fields = [''count'' \<mapsto> 1], o_frozen = True \<rparr>"
proof -
  obtain a s1 where g: "getContext_heap light_store = (a, s1)" by (cases "getContext_heap light_store")
  have wf: "well_formed light_store" by (simp add: well_formed_def light_store_def)
  from snapshot_is_fresh_frozen_copy[OF wf disjI1[OF conjI[OF g refl]]]
  have a': "a = length (s_heap light_store)"
    and o': "s_heap s1 ! a =
      \<lparr> o_fields = o_fields (s_heap light_store ! s_context light_store), o_frozen = True \<rparr>"
    and l': "\<forall>ops k v.
        s_heap (heap_steps s1 ops) ! a = s_heap s1 ! a \<and>
        s_context (heap_steps s1 ops) \<noteq> a \<and> s_props (heap_steps s1 ops) \<noteq> a \<and>
        assign a k v (s_heap (heap_steps s1 ops)) = Inl (Error ''TypeError'') \<and>
        heap_step (heap_steps s1 ops) (Assign a k v) = heap_steps s1 ops"
    by blast+
  from a' have a: "a = 2" by (simp add: light_store_def)
  from o' have o: "s_heap s1 ! a = \<lparr> o_fields = [''count'' \<mapsto> 0], o_frozen = True \<rparr>"
    by (simp add: light_store_def)
  from l' have l: "\<forall>ops k v.
        s_heap (heap_steps s1 ops) ! a = s_heap s1 ! a \<and>
        assign a k v (s_heap (heap_steps s1 ops)) = Inl (Error ''TypeError'')" by blast
  from l[rule_format, of "[]" "''count''" 10] have w: "assign a ''count'' 10 (s_heap s1) = Inl (Error ''TypeError'')"
    by (simp add: heap_steps_def)
  from l[rule_format, of "[SetContext [''count'' \<mapsto> 1], Assign 2 ''count'' 10, GetContext]"] o
  have k: "s_heap (heap_steps s1 [SetContext [''count'' \<mapsto> 1], Assign 2 ''count'' 10, GetContext]) ! a =
       \<lparr> o_fields = [''count'' \<mapsto> 0], o_frozen = True \<rparr>" by simp
  have n: "fst (getContext_heap (heap_steps (snd (getContext_heap light_store)) [SetContext [''count'' \<mapsto> 1]])) = 4
     \<and> s_heap (snd (getContext_heap (heap_steps (snd (getContext_heap light_store)) [SetContext [''count'' \<mapsto> 1]]))) ! 4 =
       \<lparr> o_fields = [''count'' \<mapsto> 1], o_frozen = True \<rparr>"
    by (simp add: light_store_def getContext_heap_def snapshot_def alloc_def freeze_def heap_steps_def
        set_context_def nth_append)
  from g a o w k n show ?thesis by simp
qed

text \<open>
  Claim C10. With \<^verbatim>\<open>immediate\<close> true or left out, when the call of the listener made by
  \<^verbatim>\<open>subscribe\<close> throws, \<^verbatim>\<open>subscribe\<close> throws the same error and leaves the machine as the
  listener left it; the listener was registered before it was called. For a listener
  that makes no call of the machine: the error comes out of \<^verbatim>\<open>subscribe\<close>, the trace
  gains the call of the listener and no \<^verbatim>\<open>console.error\<close>, and the listener is registered.
\<close>

theorem throwing_listener_stays_subscribed:
  assumes "options = None \<or> options = Some True"
  shows "(\<forall>n e m2.
        call_listener (api n env) env l (m\<lparr>m_listeners := set_add l (m_listeners m)\<rparr>) = Some (Inl e, m2) \<longrightarrow>
        api (Suc n) env (Subscribe l options) m = Some (Some e, m2))
     \<and> l \<in> set (registered (set_add l (m_listeners m)))
     \<and> (\<forall>n e. listener_result env m l = Some (Inl e) \<longrightarrow>
          api (Suc n) env (Subscribe l options) m =
            Some (Some e,
                  m\<lparr>m_listeners := set_add l (m_listeners m),
                    m_trace := m_trace m @ [ListenerCalled l (m_state m) (getContext m) (getProps m)]\<rparr>))"
proof (intro conjI allI impI)
  fix n e m2
  assume "call_listener (api n env) env l (m\<lparr>m_listeners := set_add l (m_listeners m)\<rparr>) = Some (Inl e, m2)"
  with assms show "api (Suc n) env (Subscribe l options) m = Some (Some e, m2)"
    by (auto simp: api_Subscribe subscribe_def Let_def)
next
  show "l \<in> set (registered (set_add l (m_listeners m)))"
    by (simp add: registered_set_add)
next
  fix n e
  assume "listener_result env m l = Some (Inl e)"
  with assms show "api (Suc n) env (Subscribe l options) m =
            Some (Some e,
                  m\<lparr>m_listeners := set_add l (m_listeners m),
                    m_trace := m_trace m @ [ListenerCalled l (m_state m) (getContext m) (getProps m)]\<rparr>)"
    by (simp add: api_Subscribe subscribe_quiet)
qed

theorem throwing_listener_stays_subscribed_witness:
  "api 1 faulty_env (Subscribe 0 None) (createMachine faulty_config) =
     Some (Some (Error ''Listener error''),
           (createMachine faulty_config)
             \<lparr>m_listeners := [Some 0],
              m_trace := [ListenerCalled 0 ''green'' Map.empty Map.empty]\<rparr>)"
  using throwing_listener_stays_subscribed[where options=None and env=faulty_env and l=0
      and m="createMachine faulty_config", THEN conjunct2, THEN conjunct2, rule_format,
      of "Error ''Listener error''" 0]
  by (simp add: notion_defs faulty_env_def faulty_config_def faulty_def createMachine_def set_add_def)

end
